theory Spec2Isabelle
  imports Complex_Main
begin

section \<open>Python strings\<close>

text \<open>
  A Python \<open>str\<close> is a sequence of Unicode code points and \<open>len\<close> counts code points.
  The Persian letters of the sources lie outside one byte, so a string is modelled as a
  list of code points (the integers that \<open>ord\<close> returns), written in hexadecimal as in
  the Unicode charts.
\<close>

type_synonym ustr = "int list"

text \<open>
  \<open>str.isspace\<close> on one character, which is also the class \<open>\s\<close> of the \<open>re\<close> module on
  \<open>str\<close> patterns: the 29 code points Python treats as whitespace.
\<close>

definition isspace :: "int \<Rightarrow> bool" where
  "isspace c \<longleftrightarrow>
     (0x09 \<le> c \<and> c \<le> 0x0D) \<or> (0x1C \<le> c \<and> c \<le> 0x20) \<or> c = 0x85 \<or> c = 0xA0 \<or>
     c = 0x1680 \<or> (0x2000 \<le> c \<and> c \<le> 0x200A) \<or> c = 0x2028 \<or> c = 0x2029 \<or>
     c = 0x202F \<or> c = 0x205F \<or> c = 0x3000"

text \<open>
  \<open>s.split()\<close> without arguments: the maximal runs of non-whitespace characters, in order.
  The first argument is the word being read.
\<close>

fun split_from :: "ustr \<Rightarrow> ustr \<Rightarrow> ustr list" where
  "split_from w [] = (if w = [] then [] else [w])"
| "split_from w (c # cs) =
     (if isspace c then (if w = [] then split_from [] cs else w # split_from [] cs)
      else split_from (w @ [c]) cs)"

definition str_split :: "ustr \<Rightarrow> ustr list" where
  "str_split s = split_from [] s"

text \<open>\<open>sep.join(xs)\<close>.\<close>

fun str_join :: "ustr \<Rightarrow> ustr list \<Rightarrow> ustr" where
  "str_join sep [] = []"
| "str_join sep [x] = x"
| "str_join sep (x # y # ys) = x @ sep @ str_join sep (y # ys)"

text \<open>\<open>s.strip()\<close> without arguments removes leading and trailing whitespace.\<close>

definition str_strip :: "ustr \<Rightarrow> ustr" where
  "str_strip s = rev (dropWhile isspace (rev (dropWhile isspace s)))"

text \<open>Readable test inputs: the code points of an ASCII literal.\<close>

definition ascii :: "string \<Rightarrow> ustr" where
  "ascii s = map of_char s"

section \<open>The chunker (\<open>data_processing/chunker.py\<close>)\<close>

text \<open>
  The three configuration numbers of \<open>IntelligentChunker.__init__\<close>. They are read from a
  plain dictionary, so they are arbitrary Python integers.
\<close>

record chunker_config =
  min_chunk_size :: int
  max_chunk_size :: int
  chunk_overlap :: int

text \<open>
  \<open>split_by_words\<close>: the loop over \<open>content.split()\<close> with its three variables
  \<open>chunks\<close>, \<open>current_chunk_words\<close> and \<open>current_length\<close>.
\<close>

fun split_by_words_loop :: "int \<Rightarrow> ustr list \<Rightarrow> ustr list \<Rightarrow> ustr list \<Rightarrow> int \<Rightarrow> ustr list" where
  "split_by_words_loop mx [] chunks cur len =
     (if cur \<noteq> [] then chunks @ [str_join [0x20] cur] else chunks)"
| "split_by_words_loop mx (word # words) chunks cur len =
     (let word_length = int (length word) + 1 in
      if len + word_length \<le> mx
      then split_by_words_loop mx words chunks (cur @ [word]) (len + word_length)
      else split_by_words_loop mx words
             (if cur \<noteq> [] then chunks @ [str_join [0x20] cur] else chunks) [word] word_length)"

definition split_by_words :: "chunker_config \<Rightarrow> ustr \<Rightarrow> ustr list" where
  "split_by_words cfg content =
     split_by_words_loop (max_chunk_size cfg) (str_split content) [] [] 0"

text \<open>
  Python's \<open>xs[k:]\<close>: a negative \<open>k\<close> counts from the end and is clipped at the start of
  the list, a non-negative one is clipped at its end.
\<close>

definition slice_from :: "int \<Rightarrow> 'a list \<Rightarrow> 'a list" where
  "slice_from k xs = drop (nat (if k < 0 then max (int (length xs) + k) 0 else k)) xs"

text \<open>
  \<open>add_overlap_to_chunks\<close>. The loop body for the chunks after the first one carries the
  previous chunk \<open>chunks[i-1]\<close> of the input list. In \<open>-self.chunk_overlap//10\<close> the unary
  minus binds first, and \<open>//\<close> rounds down, as \<open>div\<close> does on \<open>int\<close>.
\<close>

fun add_overlap_from :: "chunker_config \<Rightarrow> ustr \<Rightarrow> ustr list \<Rightarrow> ustr list" where
  "add_overlap_from cfg prev_chunk [] = []"
| "add_overlap_from cfg prev_chunk (chunk # rest) =
     (let overlap_words = slice_from ((- chunk_overlap cfg) div 10) (str_split prev_chunk);
          overlap_text = str_join [0x20] overlap_words
      in (if int (length overlap_text) + int (length chunk) \<le> max_chunk_size cfg
          then overlap_text @ [0x20] @ chunk
          else chunk) # add_overlap_from cfg chunk rest)"

definition add_overlap_to_chunks :: "chunker_config \<Rightarrow> ustr list \<Rightarrow> ustr list" where
  "add_overlap_to_chunks cfg chunks =
     (if length chunks \<le> 1 \<or> chunk_overlap cfg = 0 then chunks
      else (case chunks of [] \<Rightarrow> [] | chunk # rest \<Rightarrow> chunk # add_overlap_from cfg chunk rest))"

text \<open>
  \<open>PersianTextProcessor.split_sentences\<close> (\<open>utils/text_utils.py\<close>):
  \<open>re.split(r'[.\<questiondown>!;]\s+', text.strip())\<close> with the Persian question mark and semicolon,
  then every piece is stripped and kept when it has more than 10 characters. A separator
  is one of the four marks followed by a maximal run of whitespace.
\<close>

definition is_sentence_end :: "int \<Rightarrow> bool" where
  "is_sentence_end c \<longleftrightarrow> c = 0x2E \<or> c = 0x61F \<or> c = 0x21 \<or> c = 0x61B"

function re_split_sentences :: "ustr \<Rightarrow> ustr \<Rightarrow> ustr list" where
  "re_split_sentences piece [] = [piece]"
| "re_split_sentences piece (c # cs) =
     (if is_sentence_end c \<and> cs \<noteq> [] \<and> isspace (hd cs)
      then piece # re_split_sentences [] (dropWhile isspace cs)
      else re_split_sentences (piece @ [c]) cs)"
  by pat_completeness auto
termination
  by (relation "measure (\<lambda>(piece, s). length s)")
     (auto simp: less_Suc_eq_le length_dropWhile_le)

definition split_sentences :: "ustr \<Rightarrow> ustr list" where
  "split_sentences text =
     (if text = [] then []
      else filter (\<lambda>sentence. sentence \<noteq> [] \<and> length sentence > 10)
             (map str_strip (re_split_sentences [] (str_strip text))))"

text \<open>
  \<open>split_long_content\<close>: the sentence loop with its variables \<open>chunks\<close> and
  \<open>current_chunk\<close>, then the overlap. The parameter \<open>content_type\<close> is never read.
\<close>

fun pack_sentences :: "chunker_config \<Rightarrow> ustr list \<Rightarrow> ustr list \<Rightarrow> ustr \<Rightarrow> ustr list" where
  "pack_sentences cfg [] chunks current_chunk =
     (if current_chunk \<noteq> [] then chunks @ [str_strip current_chunk] else chunks)"
| "pack_sentences cfg (sentence # rest) chunks current_chunk =
     (let potential_chunk =
            (if current_chunk \<noteq> [] then current_chunk @ [0x20] @ sentence else sentence)
      in if int (length potential_chunk) \<le> max_chunk_size cfg
         then pack_sentences cfg rest chunks potential_chunk
         else
           (let chunks1 =
                  (if current_chunk \<noteq> [] then chunks @ [str_strip current_chunk] else chunks)
            in if int (length sentence) \<le> max_chunk_size cfg
               then pack_sentences cfg rest chunks1 sentence
               else
                 (let word_chunks = split_by_words cfg sentence
                  in pack_sentences cfg rest (chunks1 @ butlast word_chunks)
                       (if word_chunks \<noteq> [] then last word_chunks else []))))"

definition split_pieces :: "chunker_config \<Rightarrow> ustr \<Rightarrow> ustr list" where
  "split_pieces cfg content =
     (let sentences = split_sentences content
      in if length sentences > 1 then pack_sentences cfg sentences [] []
         else split_by_words cfg content)"

definition split_long_content :: "chunker_config \<Rightarrow> ustr \<Rightarrow> ustr list" where
  "split_long_content cfg content =
     (if int (length content) \<le> max_chunk_size cfg then [content]
      else add_overlap_to_chunks cfg (split_pieces cfg content))"

definition should_split_content :: "chunker_config \<Rightarrow> ustr \<Rightarrow> bool" where
  "should_split_content cfg content \<longleftrightarrow> int (length content) > max_chunk_size cfg"

subsection \<open>The document tree read by the chunker (\<open>core/models.py\<close>)\<close>

text \<open>
  The pydantic models, with the fields the chunker reads. Keyword lists, identifiers,
  timestamps and the free-form metadata maps are carried through unchanged by the code
  and are left out. \<open>sub_type\<close> holds the text that \<open>{subsection.type}\<close> formats to.
\<close>

record LegalSubsection =
  sub_number :: ustr
  sub_content :: ustr
  sub_type :: ustr

record LegalNote =
  note_number :: ustr
  note_content :: ustr

record LegalArticle =
  art_number :: ustr
  art_title :: ustr
  art_content :: ustr
  art_subsections :: "LegalSubsection list"
  art_notes :: "LegalNote list"

record LegalChapter =
  chap_number :: ustr
  chap_title :: ustr
  chap_articles :: "LegalArticle list"

record LegalDocument =
  doc_id :: ustr
  doc_chapters :: "LegalChapter list"
  doc_standalone_articles :: "LegalArticle list"
  doc_footnotes :: "ustr list"

datatype ChunkType = ARTICLE | NOTE | SUBSECTION | CHAPTER_TITLE | FOOTNOTE | COMBINED

record TextChunk =
  chunk_document_id :: ustr
  chunk_content :: ustr
  chunk_type :: ChunkType
  chunk_position :: int
  chunk_word_count :: int
  character_count :: int
  legal_references :: "ustr list"

datatype error = ValidationError | ChunkingError

text \<open>
  The validator \<open>content_not_empty\<close>, shared by \<open>LegalSubsection\<close>, \<open>LegalNote\<close>,
  \<open>LegalArticle\<close> and \<open>TextChunk\<close>: it raises on a content that is empty after stripping
  and stores the stripped content otherwise.
\<close>

definition content_not_empty :: "ustr \<Rightarrow> error + ustr" where
  "content_not_empty v =
     (if v = [] \<or> str_strip v = [] then Inl ValidationError else Inr (str_strip v))"

text \<open>
  Constructing a \<open>TextChunk\<close> runs its validators in field order: the content is checked
  and stripped, then \<open>word_count\<close> and \<open>character_count\<close> are recomputed from the stored
  content, whatever the caller passed.
\<close>

definition new_TextChunk :: "ustr \<Rightarrow> ustr \<Rightarrow> ChunkType \<Rightarrow> int \<Rightarrow> ustr list \<Rightarrow> error + TextChunk" where
  "new_TextChunk document_id content ctype position refs =
     (case content_not_empty content of
        Inl e \<Rightarrow> Inl e
      | Inr v \<Rightarrow>
          Inr \<lparr>chunk_document_id = document_id, chunk_content = v, chunk_type = ctype,
               chunk_position = position, chunk_word_count = int (length (str_split v)),
               character_count = int (length v), legal_references = refs\<rparr>)"

text \<open>
  A document that passed its validators: every article, subsection and note holds a
  content that its validator accepts and stores as it is.
\<close>

definition valid_article :: "LegalArticle \<Rightarrow> bool" where
  "valid_article a \<longleftrightarrow>
     content_not_empty (art_content a) = Inr (art_content a) \<and>
     list_all (\<lambda>s. content_not_empty (sub_content s) = Inr (sub_content s)) (art_subsections a) \<and>
     list_all (\<lambda>n. content_not_empty (note_content n) = Inr (note_content n)) (art_notes a)"

definition valid_document :: "LegalDocument \<Rightarrow> bool" where
  "valid_document d \<longleftrightarrow>
     list_all (\<lambda>c. list_all valid_article (chap_articles c)) (doc_chapters d) \<and>
     list_all valid_article (doc_standalone_articles d)"

subsection \<open>Chunking a document\<close>

text \<open>One \<open>TextChunk\<close> per content string, in order; the first failing construction raises.\<close>

fun build_chunks :: "(ustr \<Rightarrow> error + TextChunk) \<Rightarrow> ustr list \<Rightarrow> error + TextChunk list" where
  "build_chunks mk [] = Inr []"
| "build_chunks mk (content # rest) =
     (case mk content of
        Inl e \<Rightarrow> Inl e
      | Inr chunk \<Rightarrow>
          (case build_chunks mk rest of Inl e \<Rightarrow> Inl e | Inr chunks \<Rightarrow> Inr (chunk # chunks)))"

definition content_chunks :: "chunker_config \<Rightarrow> ustr \<Rightarrow> ustr list" where
  "content_chunks cfg text =
     (if should_split_content cfg text then split_long_content cfg text else [text])"

fun chunk_subsections :: "chunker_config \<Rightarrow> LegalArticle \<Rightarrow> ustr \<Rightarrow> int \<Rightarrow> LegalSubsection list \<Rightarrow> error + TextChunk list" where
  "chunk_subsections cfg article document_id position [] = Inr []"
| "chunk_subsections cfg article document_id position (subsection # rest) =
     (case (if sub_content subsection \<noteq> []
            then build_chunks
                   (\<lambda>content. new_TextChunk document_id content SUBSECTION position
                      [art_number article, [0x628, 0x646, 0x62F, 0x20] @ sub_number subsection])
                   (content_chunks cfg
                      (art_number article @ [0x20, 0x2D, 0x20] @ sub_type subsection @ [0x20] @
                       sub_number subsection @ [0x0A, 0x0A] @ sub_content subsection))
            else Inr []) of
        Inl e \<Rightarrow> Inl e
      | Inr chunks \<Rightarrow>
          (case chunk_subsections cfg article document_id position rest of
             Inl e \<Rightarrow> Inl e
           | Inr later \<Rightarrow> Inr (chunks @ later)))"

fun chunk_notes :: "chunker_config \<Rightarrow> LegalArticle \<Rightarrow> ustr \<Rightarrow> int \<Rightarrow> LegalNote list \<Rightarrow> error + TextChunk list" where
  "chunk_notes cfg article document_id position [] = Inr []"
| "chunk_notes cfg article document_id position (note # rest) =
     (case (if note_content note \<noteq> []
            then build_chunks
                   (\<lambda>content. new_TextChunk document_id content NOTE position
                      [art_number article, note_number note])
                   (content_chunks cfg
                      (art_number article @ [0x20, 0x2D, 0x20] @ note_number note @
                       [0x0A, 0x0A] @ note_content note))
            else Inr []) of
        Inl e \<Rightarrow> Inl e
      | Inr chunks \<Rightarrow>
          (case chunk_notes cfg article document_id position rest of
             Inl e \<Rightarrow> Inl e
           | Inr later \<Rightarrow> Inr (chunks @ later)))"

definition chunk_article :: "chunker_config \<Rightarrow> LegalArticle \<Rightarrow> ustr \<Rightarrow> int \<Rightarrow> error + TextChunk list" where
  "chunk_article cfg article document_id position =
     (case (if art_content article \<noteq> []
            then build_chunks
                   (\<lambda>content. new_TextChunk document_id content ARTICLE position
                      [art_number article])
                   (content_chunks cfg
                      (if art_title article \<noteq> []
                       then art_number article @ [0x20, 0x2D, 0x20] @ art_title article @
                            [0x0A, 0x0A] @ art_content article
                       else art_number article @ [0x0A, 0x0A] @ art_content article))
            else Inr []) of
        Inl e \<Rightarrow> Inl e
      | Inr main \<Rightarrow>
          (case chunk_subsections cfg article document_id position (art_subsections article) of
             Inl e \<Rightarrow> Inl e
           | Inr subs \<Rightarrow>
               (case chunk_notes cfg article document_id position (art_notes article) of
                  Inl e \<Rightarrow> Inl e
                | Inr notes \<Rightarrow> Inr (main @ subs @ notes))))"

text \<open>\<open>chunk_chapter\<close>: article \<open>i\<close> of the chapter is chunked at \<open>position + i + 1\<close>.\<close>

fun chunk_articles_from :: "chunker_config \<Rightarrow> ustr \<Rightarrow> int \<Rightarrow> nat \<Rightarrow> LegalArticle list \<Rightarrow> error + TextChunk list" where
  "chunk_articles_from cfg document_id position i [] = Inr []"
| "chunk_articles_from cfg document_id position i (article # rest) =
     (case chunk_article cfg article document_id (position + int i + 1) of
        Inl e \<Rightarrow> Inl e
      | Inr article_chunks \<Rightarrow>
          (case chunk_articles_from cfg document_id position (Suc i) rest of
             Inl e \<Rightarrow> Inl e
           | Inr later \<Rightarrow> Inr (article_chunks @ later)))"

definition chunk_chapter :: "chunker_config \<Rightarrow> LegalChapter \<Rightarrow> ustr \<Rightarrow> int \<Rightarrow> error + TextChunk list" where
  "chunk_chapter cfg chapter document_id position =
     (case (if chap_title chapter \<noteq> []
            then (case new_TextChunk document_id
                         (chap_number chapter @ [0x20, 0x2D, 0x20] @ chap_title chapter)
                         CHAPTER_TITLE position [chap_number chapter] of
                    Inl e \<Rightarrow> Inl e
                  | Inr chunk \<Rightarrow> Inr [chunk])
            else Inr []) of
        Inl e \<Rightarrow> Inl e
      | Inr title_chunks \<Rightarrow>
          (case chunk_articles_from cfg document_id position 0 (chap_articles chapter) of
             Inl e \<Rightarrow> Inl e
           | Inr article_chunks \<Rightarrow> Inr (title_chunks @ article_chunks)))"

text \<open>
  The two loops of \<open>chunk_document\<close> with their variables \<open>chunks\<close> and
  \<open>position_counter\<close>.
\<close>

fun chunk_chapters_loop :: "chunker_config \<Rightarrow> ustr \<Rightarrow> LegalChapter list \<Rightarrow> TextChunk list \<Rightarrow> int \<Rightarrow> error + (TextChunk list \<times> int)" where
  "chunk_chapters_loop cfg document_id [] chunks position_counter =
     Inr (chunks, position_counter)"
| "chunk_chapters_loop cfg document_id (chapter # rest) chunks position_counter =
     (case chunk_chapter cfg chapter document_id position_counter of
        Inl e \<Rightarrow> Inl e
      | Inr chapter_chunks \<Rightarrow>
          chunk_chapters_loop cfg document_id rest (chunks @ chapter_chunks)
            (position_counter + int (length chapter_chunks)))"

fun chunk_standalone_loop :: "chunker_config \<Rightarrow> ustr \<Rightarrow> LegalArticle list \<Rightarrow> TextChunk list \<Rightarrow> int \<Rightarrow> error + (TextChunk list \<times> int)" where
  "chunk_standalone_loop cfg document_id [] chunks position_counter =
     Inr (chunks, position_counter)"
| "chunk_standalone_loop cfg document_id (article # rest) chunks position_counter =
     (case chunk_article cfg article document_id position_counter of
        Inl e \<Rightarrow> Inl e
      | Inr article_chunks \<Rightarrow>
          chunk_standalone_loop cfg document_id rest (chunks @ article_chunks)
            (position_counter + int (length article_chunks)))"

text \<open>\<open>str(n)\<close> for a non-negative integer, and the joined footnote text.\<close>

fun str_of_nat :: "nat \<Rightarrow> ustr" where
  "str_of_nat n =
     (if n < 10 then [0x30 + int n] else str_of_nat (n div 10) @ [0x30 + int (n mod 10)])"

fun footnote_lines :: "nat \<Rightarrow> ustr list \<Rightarrow> ustr list" where
  "footnote_lines i [] = []"
| "footnote_lines i (footnote # rest) =
     ([0x67E, 0x627, 0x648, 0x631, 0x642, 0x6CC, 0x20] @ str_of_nat (i + 1) @ [0x3A, 0x20] @
      footnote) # footnote_lines (Suc i) rest"

definition footnote_chunks :: "ustr \<Rightarrow> ustr list \<Rightarrow> int \<Rightarrow> error + TextChunk list" where
  "footnote_chunks document_id footnotes position_counter =
     (if footnotes \<noteq> []
      then (let footnotes_content = str_join [0x0A, 0x0A] (footnote_lines 0 footnotes)
            in if footnotes_content \<noteq> []
               then (case new_TextChunk document_id footnotes_content FOOTNOTE position_counter
                            [[0x67E, 0x627, 0x648, 0x631, 0x642, 0x6CC]] of
                       Inl e \<Rightarrow> Inl e
                     | Inr chunk \<Rightarrow> Inr [chunk])
               else Inr [])
      else Inr [])"

text \<open>
  The counters of \<open>chunking_stats\<close> that \<open>chunk_document\<close> itself updates, once all chunks
  exist: a chunk above \<open>max_chunk_size\<close> is tallied as oversized, otherwise one below
  \<open>min_chunk_size\<close> as undersized. The per-type counters of \<open>chunk_article\<close> are not
  modelled.
\<close>

record chunking_stats =
  documents_chunked :: int
  total_chunks_created :: int
  oversized_chunks :: int
  undersized_chunks :: int

fun tally_sizes :: "chunker_config \<Rightarrow> TextChunk list \<Rightarrow> chunking_stats \<Rightarrow> chunking_stats" where
  "tally_sizes cfg [] stats = stats"
| "tally_sizes cfg (chunk # rest) stats =
     tally_sizes cfg rest
       (if character_count chunk > max_chunk_size cfg
        then stats\<lparr>oversized_chunks := oversized_chunks stats + 1\<rparr>
        else if character_count chunk < min_chunk_size cfg
        then stats\<lparr>undersized_chunks := undersized_chunks stats + 1\<rparr>
        else stats)"

text \<open>
  \<open>chunk_document\<close>: chapters, then standalone articles, then one footnote chunk. Any
  exception is caught and raised again with the document's id; the result is the chunk
  list, and the instance's counters after the call.
\<close>

definition chunk_document :: "chunker_config \<Rightarrow> chunking_stats \<Rightarrow> LegalDocument \<Rightarrow> error + (TextChunk list \<times> chunking_stats)" where
  "chunk_document cfg stats document =
     (case chunk_chapters_loop cfg (doc_id document) (doc_chapters document) [] 0 of
        Inl e \<Rightarrow> Inl ChunkingError
      | Inr (chunks1, position1) \<Rightarrow>
          (case chunk_standalone_loop cfg (doc_id document) (doc_standalone_articles document)
                  chunks1 position1 of
             Inl e \<Rightarrow> Inl ChunkingError
           | Inr (chunks2, position2) \<Rightarrow>
               (case footnote_chunks (doc_id document) (doc_footnotes document) position2 of
                  Inl e \<Rightarrow> Inl ChunkingError
                | Inr footnote \<Rightarrow>
                    (let chunks = chunks2 @ footnote
                     in Inr (chunks,
                          tally_sizes cfg chunks
                            (stats\<lparr>documents_chunked := documents_chunked stats + 1,
                                   total_chunks_created :=
                                     total_chunks_created stats + int (length chunks)\<rparr>))))))"

section \<open>Text normalisation (\<open>utils/text_utils.py\<close>)\<close>

text \<open>
  \<open>normalize_persian_text\<close> first calls \<open>unicodedata.normalize('NFKC', text)\<close>. That
  function is library code driven by the tables of the Unicode standard; the model takes
  it as the parameter \<open>nfkc\<close>. Then every entry of \<open>char_map\<close> is applied with
  \<open>str.replace\<close>, in the order of the dictionary literal; keys and values are single
  characters.
\<close>

definition char_map :: "(int \<times> int) list" where
  "char_map =
     [(0x643, 0x6A9), (0x64A, 0x6CC), (0x621, 0x626), (0x623, 0x627), (0x625, 0x627),
      (0x622, 0x627), (0x629, 0x647), (0x624, 0x648), (0x626, 0x6CC),
      (0x660, 0x6F0), (0x661, 0x6F1), (0x662, 0x6F2), (0x663, 0x6F3), (0x664, 0x6F4),
      (0x665, 0x6F5), (0x666, 0x6F6), (0x667, 0x6F7), (0x668, 0x6F8), (0x669, 0x6F9)]"

definition replace_char :: "int \<Rightarrow> int \<Rightarrow> ustr \<Rightarrow> ustr" where
  "replace_char old_char new_char text = map (\<lambda>c. if c = old_char then new_char else c) text"

definition apply_char_map :: "ustr \<Rightarrow> ustr" where
  "apply_char_map text = fold (\<lambda>(old_char, new_char). replace_char old_char new_char) char_map text"

definition normalize_persian_text :: "(ustr \<Rightarrow> ustr) \<Rightarrow> ustr \<Rightarrow> ustr" where
  "normalize_persian_text nfkc text = (if text = [] then [] else apply_char_map (nfkc text))"

text \<open>
  \<open>re.sub(r'\s+', ' ', text)\<close>: every maximal run of whitespace becomes one space.
\<close>

function sub_whitespace :: "ustr \<Rightarrow> ustr" where
  "sub_whitespace [] = []"
| "sub_whitespace (c # cs) =
     (if isspace c then 0x20 # sub_whitespace (dropWhile isspace cs)
      else c # sub_whitespace cs)"
  by pat_completeness auto
termination
  by (relation "measure length") (auto simp: less_Suc_eq_le length_dropWhile_le)

text \<open>
  \<open>re.sub(r'\s*([X])\s*', repl, text)\<close> for a class \<open>X\<close> of characters that are not
  whitespace. Scanning from the left, the pattern matches at a position exactly when
  the first non-whitespace character from there on lies in \<open>X\<close>; the match takes the
  whitespace before and after that character, and the scan resumes behind it. Where the
  pattern does not match, one character is copied.
\<close>

function sub_spaced :: "(int \<Rightarrow> bool) \<Rightarrow> (int \<Rightarrow> ustr) \<Rightarrow> ustr \<Rightarrow> ustr" where
  "sub_spaced cls repl [] = []"
| "sub_spaced cls repl (c # cs) =
     (case dropWhile isspace (c # cs) of
        [] \<Rightarrow> c # sub_spaced cls repl cs
      | p # rest \<Rightarrow>
          if cls p then repl p @ sub_spaced cls repl (dropWhile isspace rest)
          else c # sub_spaced cls repl cs)"
  by pat_completeness auto
termination
proof (relation "measure (\<lambda>(cls, repl, s). length s)")
  fix cls :: "int \<Rightarrow> bool" and repl :: "int \<Rightarrow> ustr" and c cs p rest
  assume "dropWhile isspace (c # cs) = p # rest"
  then have "length (p # rest) \<le> length (c # cs)"
    by (metis length_dropWhile_le)
  moreover have "length (dropWhile isspace rest) \<le> length rest"
    by (rule length_dropWhile_le)
  ultimately show "((cls, repl, dropWhile isspace rest), (cls, repl, c # cs))
                   \<in> measure (\<lambda>(cls, repl, s). length s)"
    by simp
qed auto

definition is_punctuation :: "int \<Rightarrow> bool" where
  "is_punctuation c \<longleftrightarrow> c = 0x60C \<or> c = 0x61B \<or> c = 0x61F \<or> c = 0x21 \<or> c = 0x2E"

definition is_parenthesis :: "int \<Rightarrow> bool" where
  "is_parenthesis c \<longleftrightarrow> c = 0x28 \<or> c = 0x29"

text \<open>\<open>clean_text\<close>: normalise, collapse whitespace, space the punctuation, strip.\<close>

definition clean_text :: "(ustr \<Rightarrow> ustr) \<Rightarrow> ustr \<Rightarrow> ustr" where
  "clean_text nfkc text =
     (if text = [] then []
      else str_strip
             (sub_spaced is_parenthesis (\<lambda>p. [0x20, p, 0x20])
                (sub_spaced is_punctuation (\<lambda>p. [p, 0x20])
                   (sub_whitespace (normalize_persian_text nfkc text)))))"

text \<open>
  For concrete inputs a value of the parameter \<open>nfkc\<close> is needed. On text made of ASCII
  characters, Arabic letters and the mark U+0653 MADDAH ABOVE, such that a mark never
  follows another mark, NFKC does one thing: it composes ALEF (U+0627) with a directly
  following MADDAH ABOVE into ALEF WITH MADDA ABOVE (U+0622). A MADDAH ABOVE after
  another letter, such as ALEF WITH HAMZA ABOVE (U+0623), stays. This function is that
  fragment of the Unicode algorithm, not code of the repository.
\<close>

fun nfkc_fragment :: "ustr \<Rightarrow> ustr" where
  "nfkc_fragment [] = []"
| "nfkc_fragment [c] = [c]"
| "nfkc_fragment (c # d # s) =
     (if c = 0x627 \<and> d = 0x653 then 0x622 # nfkc_fragment s else c # nfkc_fragment (d # s))"

section \<open>The splitter (\<open>data_processing/document_splitter.py\<close>)\<close>

text \<open>\<open>text[start:end]\<close> for indices that are not negative.\<close>

definition slice :: "nat \<Rightarrow> nat \<Rightarrow> 'a list \<Rightarrow> 'a list" where
  "slice start end text = take (end - start) (drop start text)"

text \<open>
  \<open>re.finditer(r"\*{10,}", text)\<close>, reduced to \<open>match.end()\<close>: a match is a maximal run
  of at least ten asterisks, and the search resumes behind it. \<open>pos\<close> is the index of the
  first character of the remaining text.
\<close>

function separator_ends :: "nat \<Rightarrow> ustr \<Rightarrow> nat list" where
  "separator_ends pos [] = []"
| "separator_ends pos (c # cs) =
     (let run = length (takeWhile (\<lambda>x. x = 0x2A) (c # cs))
      in if 10 \<le> run
         then (pos + run) # separator_ends (pos + run) (drop run (c # cs))
         else separator_ends (pos + 1) cs)"
  by pat_completeness auto
termination
  by (relation "measure (\<lambda>(pos, s). length s)") auto

text \<open>\<open>identify_law_boundaries\<close>: the loop over the separators, then the last section.\<close>

fun law_boundaries_loop :: "nat list \<Rightarrow> nat \<Rightarrow> (nat \<times> nat) list \<Rightarrow> (nat \<times> nat) list \<times> nat" where
  "law_boundaries_loop [] start_pos boundaries = (boundaries, start_pos)"
| "law_boundaries_loop (separator_pos # rest) start_pos boundaries =
     law_boundaries_loop rest separator_pos
       (if start_pos < separator_pos then boundaries @ [(start_pos, separator_pos)]
        else boundaries)"

definition identify_law_boundaries :: "ustr \<Rightarrow> (nat \<times> nat) list" where
  "identify_law_boundaries text =
     (case law_boundaries_loop (separator_ends 0 text) 0 [] of
        (boundaries, start_pos) \<Rightarrow>
          if start_pos < length text then boundaries @ [(start_pos, length text)]
          else boundaries)"

text \<open>
  \<open>read_docx_file\<close> joins the stripped, non-empty paragraphs that the document reader
  yields; the reader itself is outside the model.
\<close>

definition read_docx_file :: "ustr list \<Rightarrow> ustr" where
  "read_docx_file paragraphs =
     str_join [0x0A] (filter (\<lambda>p. p \<noteq> []) (map str_strip paragraphs))"

text \<open>
  What the splitter takes from libraries: NFKC, the character class \<open>\w\<close> of the \<open>re\<close>
  module, and the result of \<open>re.search\<close> for the two patterns with lazy groups and
  alternatives, the law title pattern (groups 1 and 2) and the date pattern (group 1).
  The properties below hold for every value of these four.
\<close>

record library =
  nfkc_of :: "ustr \<Rightarrow> ustr"
  word_char :: "int \<Rightarrow> bool"
  search_law_title :: "ustr \<Rightarrow> (ustr \<times> ustr) option"
  search_date :: "ustr \<Rightarrow> ustr option"

text \<open>\<open>sub in s\<close> on strings, and \<open>s.split('\n')\<close>.\<close>

fun starts_with :: "ustr \<Rightarrow> ustr \<Rightarrow> bool" where
  "starts_with [] s = True"
| "starts_with (k # ks) [] = False"
| "starts_with (k # ks) (c # cs) = (k = c \<and> starts_with ks cs)"

fun contains :: "ustr \<Rightarrow> ustr \<Rightarrow> bool" where
  "contains sub [] = (sub = [])"
| "contains sub (c # cs) = (starts_with sub (c # cs) \<or> contains sub cs)"

fun split_on :: "int \<Rightarrow> ustr \<Rightarrow> ustr \<Rightarrow> ustr list" where
  "split_on sep piece [] = [piece]"
| "split_on sep piece (c # cs) =
     (if c = sep then piece # split_on sep [] cs else split_on sep (piece @ [c]) cs)"

definition split_lines :: "ustr \<Rightarrow> ustr list" where
  "split_lines s = split_on 0x0A [] s"

definition unknown :: ustr where
  "unknown = [0x646, 0x627, 0x645, 0x634, 0x62E, 0x635]"

definition word_madde :: ustr where
  "word_madde = [0x645, 0x627, 0x62F, 0x647]"

definition word_vahede :: ustr where
  "word_vahede = [0x648, 0x627, 0x62D, 0x62F, 0x647]"

definition word_tabsare :: ustr where
  "word_tabsare = [0x62A, 0x628, 0x635, 0x631, 0x647]"

definition word_band :: ustr where
  "word_band = [0x628, 0x646, 0x62F]"

definition word_fasl :: ustr where
  "word_fasl = [0x641, 0x635, 0x644]"

definition legal_words :: "ustr list" where
  "legal_words =
     [[0x642, 0x627, 0x646, 0x648, 0x646],
      [0x622, 0x6CC, 0x6CC, 0x646, 0x200C, 0x646, 0x627, 0x645, 0x647],
      [0x62F, 0x633, 0x62A, 0x648, 0x631, 0x627, 0x644, 0x639, 0x645, 0x644]]"

text \<open>
  \<open>extract_law_title_and_date\<close>: the title pattern on the first lines, else the first
  of these lines that holds a legal word, else nothing.
\<close>

fun first_legal_line :: "ustr list \<Rightarrow> ustr option \<times> ustr option \<times> ustr option" where
  "first_legal_line [] = (None, None, None)"
| "first_legal_line (line # rest) =
     (if list_ex (\<lambda>legal_word. contains legal_word (str_strip line)) legal_words
      then (Some (str_strip line), Some unknown, Some unknown)
      else first_legal_line rest)"

definition extract_law_title_and_date :: "library \<Rightarrow> ustr \<Rightarrow> ustr option \<times> ustr option \<times> ustr option" where
  "extract_law_title_and_date L law_text =
     (let cleaned_text = clean_text (nfkc_of L) law_text;
          lines = take 5 (split_lines cleaned_text);
          first_content = str_strip (str_join [0x20] lines)
      in case search_law_title L first_content of
           Some (group1, group2) \<Rightarrow>
             (let title = str_strip group1;
                  date_info = str_strip group2;
                  authority =
                    (if contains [0x647, 0x6CC, 0x626, 0x62A, 0x200C, 0x648, 0x632, 0x6CC, 0x631, 0x627, 0x646] date_info \<or>
                        contains [0x647, 0x6CC, 0x626, 0x62A, 0x20, 0x648, 0x632, 0x6CC, 0x631, 0x627, 0x646] date_info
                     then [0x647, 0x6CC, 0x626, 0x62A, 0x200C, 0x648, 0x632, 0x6CC, 0x631, 0x627, 0x646]
                     else if contains [0x634, 0x648, 0x631, 0x627, 0x6CC] date_info
                     then [0x634, 0x648, 0x631, 0x627, 0x6CC, 0x20, 0x639, 0x627, 0x644, 0x6CC, 0x20,
                           0x627, 0x646, 0x642, 0x644, 0x627, 0x628, 0x20, 0x641, 0x631, 0x647, 0x646,
                           0x6AF, 0x6CC]
                     else [0x645, 0x62C, 0x644, 0x633, 0x20, 0x634, 0x648, 0x631, 0x627, 0x6CC, 0x20,
                           0x627, 0x633, 0x644, 0x627, 0x645, 0x6CC]);
                  approval_date =
                    (case search_date L date_info of Some d \<Rightarrow> d | None \<Rightarrow> date_info)
              in (Some title, Some approval_date, Some authority))
         | None \<Rightarrow> first_legal_line lines)"

text \<open>
  \<open>is_valid_persian_text\<close>, and the two searches of \<open>calculate_quality_score\<close>: the word
  for article, optional whitespace, then a Persian digit or the word for single.
\<close>

definition is_valid_persian_text :: "library \<Rightarrow> ustr \<Rightarrow> bool" where
  "is_valid_persian_text L text =
     (if text = [] \<or> length (str_strip text) < 3 then False
      else let persian_char_count = length (filter (\<lambda>c. 0x600 \<le> c \<and> c \<le> 0x6FF) text);
               total_chars = length (filter (word_char L) text)
           in if total_chars = 0 then False
              else real persian_char_count / real total_chars \<ge> 0.3)"

fun search_from :: "(ustr \<Rightarrow> bool) \<Rightarrow> ustr \<Rightarrow> bool" where
  "search_from matches [] = matches []"
| "search_from matches (c # cs) = (matches (c # cs) \<or> search_from matches cs)"

definition numbered_article_here :: "ustr \<Rightarrow> bool" where
  "numbered_article_here s =
     (starts_with word_madde s \<and>
      (case dropWhile isspace (drop 4 s) of [] \<Rightarrow> False | d # _ \<Rightarrow> 0x6F0 \<le> d \<and> d \<le> 0x6F9))"

definition single_article_here :: "ustr \<Rightarrow> bool" where
  "single_article_here s =
     (starts_with word_madde s \<and> starts_with word_vahede (dropWhile isspace (drop 4 s)))"

text \<open>
  \<open>calculate_quality_score\<close>: five checks worth 0.2 each. The sum is a float in the
  source; with at most five terms of 0.2 its comparison with 0.4 agrees with the exact
  one, so the score is modelled as a real number.
\<close>

definition calculate_quality_score :: "library \<Rightarrow> ustr \<Rightarrow> ustr \<Rightarrow> real" where
  "calculate_quality_score L law_text title =
     min ((if 50 \<le> length law_text then 0.2 else 0) +
          (if title \<noteq> [] \<and> length title > 10 then 0.2 else 0) +
          (if is_valid_persian_text L law_text then 0.2 else 0) +
          (if 2 \<le> length (filter (\<lambda>indicator. contains indicator law_text)
                          [word_madde, word_tabsare, word_band, word_fasl])
           then 0.2 else 0) +
          (if search_from numbered_article_here law_text \<or>
              search_from single_article_here law_text
           then 0.2 else 0))
         1.0"

record LawMetadata =
  law_id :: ustr
  law_title :: ustr
  approval_date :: ustr
  approval_authority :: ustr
  raw_content :: ustr
  law_word_count :: nat
  quality_score :: real

text \<open>
  \<open>process_individual_law\<close>. The title fallback reads the first three lines of the
  cleaned text; \<open>{n:03d}\<close> pads the number to three digits. Nothing in the body raises
  in the model, so the \<open>except\<close> branch and its error counter do not appear; the
  extraction timestamp is left out.
\<close>

fun first_long_line :: "ustr list \<Rightarrow> ustr option" where
  "first_long_line [] = None"
| "first_long_line (line # rest) =
     (if str_strip line \<noteq> [] \<and> length (str_strip line) > 10
      then Some (take 100 (str_strip line) @ [0x2E, 0x2E, 0x2E])
      else first_long_line rest)"

definition format_03d :: "nat \<Rightarrow> ustr" where
  "format_03d n = replicate (3 - length (str_of_nat n)) 0x30 @ str_of_nat n"

definition process_individual_law :: "library \<Rightarrow> ustr \<Rightarrow> nat \<Rightarrow> LawMetadata option" where
  "process_individual_law L law_text law_index =
     (let cleaned_text = clean_text (nfkc_of L) law_text
      in if length cleaned_text < 50 then None
         else
           (case extract_law_title_and_date L cleaned_text of
              (title0, date0, authority0) \<Rightarrow>
                (let title =
                       (case title0 of
                          Some t \<Rightarrow> if t \<noteq> [] then Some t else None
                        | None \<Rightarrow> None);
                     title =
                       (case title of
                          Some t \<Rightarrow> t
                        | None \<Rightarrow>
                            (case first_long_line (take 3 (split_lines cleaned_text)) of
                               Some t \<Rightarrow> t
                             | None \<Rightarrow>
                                 [0x633, 0x646, 0x62F, 0x20, 0x62D, 0x642, 0x648, 0x642, 0x6CC, 0x20,
                                  0x634, 0x645, 0x627, 0x631, 0x647, 0x20] @
                                 str_of_nat (law_index + 1)))
                 in Some
                      \<lparr>law_id = [0x6C, 0x61, 0x77, 0x5F] @ format_03d (law_index + 1),
                       law_title = title,
                       approval_date =
                         (case date0 of Some d \<Rightarrow> if d \<noteq> [] then d else unknown | None \<Rightarrow> unknown),
                       approval_authority =
                         (case authority0 of
                            Some a \<Rightarrow> if a \<noteq> [] then a else unknown
                          | None \<Rightarrow> unknown),
                       raw_content = cleaned_text,
                       law_word_count = length (str_split cleaned_text),
                       quality_score = calculate_quality_score L cleaned_text title\<rparr>)))"

text \<open>
  \<open>split_document\<close>. The counters that the method updates are \<open>total_laws_found\<close>,
  \<open>valid_laws\<close> and \<open>invalid_laws\<close>. The document reader either raises, which the method
  catches and reports, or yields the paragraphs; writing the output files is outside
  the model.
\<close>

record processing_stats =
  total_laws_found :: int
  valid_laws :: int
  invalid_laws :: int

record split_result =
  result_success :: bool
  result_stats :: processing_stats
  result_laws :: "LawMetadata list"

fun split_loop :: "library \<Rightarrow> ustr \<Rightarrow> nat \<Rightarrow> (nat \<times> nat) list \<Rightarrow> LawMetadata list \<Rightarrow> processing_stats \<Rightarrow> LawMetadata list \<times> processing_stats" where
  "split_loop L full_text i [] valid st = (valid, st)"
| "split_loop L full_text i ((start, end) # rest) valid st =
     (let law_text = str_strip (slice start end full_text)
      in if law_text \<noteq> []
         then (case process_individual_law L law_text i of
                 Some metadata \<Rightarrow>
                   if quality_score metadata \<ge> 0.4
                   then split_loop L full_text (Suc i) rest (valid @ [metadata])
                          (st\<lparr>valid_laws := valid_laws st + 1\<rparr>)
                   else split_loop L full_text (Suc i) rest valid
                          (st\<lparr>invalid_laws := invalid_laws st + 1\<rparr>)
               | None \<Rightarrow>
                   split_loop L full_text (Suc i) rest valid
                     (st\<lparr>invalid_laws := invalid_laws st + 1\<rparr>))
         else split_loop L full_text (Suc i) rest valid st)"

definition split_document :: "library \<Rightarrow> processing_stats \<Rightarrow> ustr list option \<Rightarrow> split_result" where
  "split_document L st source =
     (case source of
        None \<Rightarrow> \<lparr>result_success = False, result_stats = st, result_laws = []\<rparr>
      | Some paragraphs \<Rightarrow>
          (let full_text = read_docx_file paragraphs;
               boundaries = identify_law_boundaries full_text
           in case split_loop L full_text 0 boundaries []
                     (st\<lparr>total_laws_found := int (length boundaries)\<rparr>) of
                (valid, st') \<Rightarrow> \<lparr>result_success = True, result_stats = st', result_laws = valid\<rparr>))"

text \<open>\<open>ProcessingReport.success_rate\<close> (\<open>core/models.py\<close>), with the three counters it reads.\<close>

record ProcessingReport =
  total_items :: int
  processed_items :: int
  failed_items :: int

definition success_rate :: "ProcessingReport \<Rightarrow> real" where
  "success_rate r =
     (if total_items r = 0 then 0.0
      else (real_of_int (processed_items r) / real_of_int (total_items r)) * 100.0)"

section \<open>The parser (\<open>data_processing/document_parser.py\<close>)\<close>

subsection \<open>The header patterns\<close>

text \<open>
  The four header patterns of \<open>DOCUMENT_CONFIG\<close> share one shape: a literal word,
  whitespace (\<open>\s+\<close> for chapters, \<open>\s*\<close> otherwise), a token (\<open>[^\s]+\<close>, \<open>[^\s]*\<close> or
  a literal word), and the tail \<open>\s*[-\<dash>]?\s*(.*)$\<close> with the three dash characters.
  Every quantifier is greedy and the tail can always be matched, so the match the
  engine returns is the greedy one. A match is reported as group 1, group 2 and the
  number of characters taken.
\<close>

definition is_dash :: "int \<Rightarrow> bool" where
  "is_dash c \<longleftrightarrow> c = 0x2D \<or> c = 0x2013 \<or> c = 0x2014"

text \<open>
  The tail under \<open>re.MULTILINE\<close>: \<open>.\<close> stops at a line feed and \<open>$\<close> matches there. The
  result is group 2 and the number of characters taken.
\<close>

definition match_tail :: "ustr \<Rightarrow> ustr \<times> nat" where
  "match_tail r =
     (let r1 = dropWhile isspace r;
          r2 = (case r1 of [] \<Rightarrow> [] | d # rest \<Rightarrow> if is_dash d then rest else r1);
          r3 = dropWhile isspace r2;
          title = takeWhile (\<lambda>c. c \<noteq> 0x0A) r3
      in (title, length r - length r3 + length title))"

text \<open>
  The tail without flags, as \<open>re.sub\<close> uses it in \<open>parse_article\<close> and
  \<open>extract_notes\<close>: \<open>$\<close> matches only at the end of the text or before a line feed that
  ends it, so the greedy attempt must reach that place, and no other attempt can where
  it cannot.
\<close>

definition match_tail_to_end :: "ustr \<Rightarrow> (ustr \<times> nat) option" where
  "match_tail_to_end r =
     (case match_tail r of
        (title, n) \<Rightarrow> if drop n r = [] \<or> drop n r = [0x0A] then Some (title, n) else None)"

definition nonspace_plus :: "ustr \<Rightarrow> nat option" where
  "nonspace_plus s =
     (let n = length (takeWhile (\<lambda>c. \<not> isspace c) s) in if n = 0 then None else Some n)"

definition nonspace_star :: "ustr \<Rightarrow> nat option" where
  "nonspace_star s = Some (length (takeWhile (\<lambda>c. \<not> isspace c) s))"

definition literal :: "ustr \<Rightarrow> ustr \<Rightarrow> nat option" where
  "literal w s = (if starts_with w s then Some (length w) else None)"

definition match_header :: "ustr \<Rightarrow> bool \<Rightarrow> (ustr \<Rightarrow> nat option) \<Rightarrow> (ustr \<Rightarrow> (ustr \<times> nat) option) \<Rightarrow> ustr \<Rightarrow> (ustr \<times> ustr \<times> nat) option" where
  "match_header word space_needed token tail s =
     (if \<not> starts_with word s then None
      else
        (let r = drop (length word) s;
             ws = length (takeWhile isspace r)
         in if space_needed \<and> ws = 0 then None
            else
              (case token (drop ws r) of
                 None \<Rightarrow> None
               | Some n \<Rightarrow>
                   (case tail (drop n (drop ws r)) of
                      None \<Rightarrow> None
                    | Some (title, m) \<Rightarrow>
                        Some (take (length word + ws + n) s, title, length word + ws + n + m)))))"

definition chapter_pattern :: "ustr \<Rightarrow> (ustr \<times> ustr \<times> nat) option" where
  "chapter_pattern = match_header word_fasl True nonspace_plus (\<lambda>r. Some (match_tail r))"

definition article_pattern :: "ustr \<Rightarrow> (ustr \<times> ustr \<times> nat) option" where
  "article_pattern = match_header word_madde False nonspace_plus (\<lambda>r. Some (match_tail r))"

definition single_article_pattern :: "ustr \<Rightarrow> (ustr \<times> ustr \<times> nat) option" where
  "single_article_pattern =
     match_header word_madde False (literal word_vahede) (\<lambda>r. Some (match_tail r))"

definition note_pattern :: "ustr \<Rightarrow> (ustr \<times> ustr \<times> nat) option" where
  "note_pattern = match_header word_tabsare False nonspace_star (\<lambda>r. Some (match_tail r))"

text \<open>
  \<open>re.finditer(pattern, text, re.MULTILINE)\<close> for a pattern that starts with \<open>^\<close>: a
  match can start at index 0 or behind a line feed, and the search resumes at the end
  of the match.
\<close>

record re_match =
  match_start :: nat
  match_end :: nat
  group1 :: ustr
  group2 :: ustr

definition line_start :: "ustr \<Rightarrow> nat \<Rightarrow> bool" where
  "line_start text i \<longleftrightarrow> i = 0 \<or> text ! (i - 1) = 0x0A"

function finditer_from :: "(ustr \<Rightarrow> (ustr \<times> ustr \<times> nat) option) \<Rightarrow> ustr \<Rightarrow> nat \<Rightarrow> re_match list" where
  "finditer_from pattern text i =
     (if length text \<le> i then []
      else
        (case (if line_start text i then pattern (drop i text) else None) of
           None \<Rightarrow> finditer_from pattern text (i + 1)
         | Some (g1, g2, n) \<Rightarrow>
             \<lparr>match_start = i, match_end = i + n, group1 = g1, group2 = g2\<rparr> #
             finditer_from pattern text (i + max n 1)))"
  by pat_completeness auto
termination
  by (relation "measure (\<lambda>(pattern, text, i). length text - i)") auto

definition finditer :: "(ustr \<Rightarrow> (ustr \<times> ustr \<times> nat) option) \<Rightarrow> ustr \<Rightarrow> re_match list" where
  "finditer pattern text = finditer_from pattern text 0"

subsection \<open>Chapter and article boundaries\<close>

text \<open>
  The loop shared by \<open>extract_chapters\<close> and \<open>extract_articles\<close>: a span starts where its
  match starts and ends where the next match starts, the last one at the end of the
  text. The results are (number, title, start, end).
\<close>

fun boundaries_of :: "nat \<Rightarrow> re_match list \<Rightarrow> (ustr \<times> ustr \<times> nat \<times> nat) list" where
  "boundaries_of n [] = []"
| "boundaries_of n [m] = [(str_strip (group1 m), str_strip (group2 m), match_start m, n)]"
| "boundaries_of n (m # m' # ms) =
     (str_strip (group1 m), str_strip (group2 m), match_start m, match_start m') #
     boundaries_of n (m' # ms)"

definition extract_chapters :: "ustr \<Rightarrow> (ustr \<times> ustr \<times> nat \<times> nat) list" where
  "extract_chapters text = boundaries_of (length text) (finditer chapter_pattern text)"

text \<open>
  \<open>extract_articles\<close> merges the matches of the two article patterns and sorts them by
  their start with Python's stable sort; a single article has no title.
\<close>

definition extract_articles :: "ustr \<Rightarrow> (ustr \<times> ustr \<times> nat \<times> nat) list" where
  "extract_articles text =
     boundaries_of (length text)
       (sort_key match_start
          (finditer article_pattern text @
           map (\<lambda>m. m\<lparr>group2 := []\<rparr>) (finditer single_article_pattern text)))"

text \<open>The spans \<open>(note_start, note_end)\<close> that the loop of \<open>extract_notes\<close> computes.\<close>

definition note_boundaries :: "ustr \<Rightarrow> (ustr \<times> ustr \<times> nat \<times> nat) list" where
  "note_boundaries text = boundaries_of (length text) (finditer note_pattern text)"

subsection \<open>Header removal\<close>

text \<open>
  \<open>re.sub(pattern, '', text, count=1)\<close> for a header pattern, called without flags: \<open>^\<close>
  matches at index 0 only, so the one match that can be removed starts there, and
  \<open>$\<close> matches at the end of the text only.
\<close>

definition article_header :: "ustr \<Rightarrow> (ustr \<times> ustr \<times> nat) option" where
  "article_header = match_header word_madde False nonspace_plus match_tail_to_end"

definition single_article_header :: "ustr \<Rightarrow> (ustr \<times> ustr \<times> nat) option" where
  "single_article_header =
     match_header word_madde False (literal word_vahede) match_tail_to_end"

definition note_header :: "ustr \<Rightarrow> (ustr \<times> ustr \<times> nat) option" where
  "note_header = match_header word_tabsare False nonspace_star match_tail_to_end"

definition re_sub_first :: "(ustr \<Rightarrow> (ustr \<times> ustr \<times> nat) option) \<Rightarrow> ustr \<Rightarrow> ustr" where
  "re_sub_first pattern text =
     (case pattern text of None \<Rightarrow> text | Some (g1, g2, n) \<Rightarrow> drop n text)"

subsection \<open>The dataclasses of the parser\<close>

text \<open>
  \<open>document_parser.py\<close> declares its own \<open>LegalSubsection\<close>, \<open>LegalNote\<close>, \<open>LegalArticle\<close>
  and \<open>LegalChapter\<close> as plain dataclasses (suffix \<open>_dc\<close> here); their \<open>__post_init__\<close>
  fills in defaults and checks nothing, so constructing one cannot raise. The keyword
  lists are left out: nothing below reads them.
\<close>

record LegalSubsection_dc =
  ss_number :: ustr
  ss_content :: ustr
  ss_type :: ustr

record LegalNote_dc =
  nt_number :: ustr
  nt_content :: ustr
  nt_subsections :: "LegalSubsection_dc list"

record LegalArticle_dc =
  ar_number :: ustr
  ar_title :: ustr
  ar_content :: ustr
  ar_subsections :: "LegalSubsection_dc list"
  ar_notes :: "LegalNote_dc list"
  ar_word_count :: nat

record LegalChapter_dc =
  ch_number :: ustr
  ch_title :: ustr
  ch_articles :: "LegalArticle_dc list"

record ParsedLegalDocument =
  pd_id :: ustr
  pd_title :: ustr
  pd_chapters :: "LegalChapter_dc list"
  pd_standalone_articles :: "LegalArticle_dc list"

subsection \<open>Subsections\<close>

text \<open>
  The three patterns of \<open>extract_subsections\<close> have the shape
  \<open>^marker\s*(.+?)(?=^marker|\Z)\<close> under \<open>re.MULTILINE | re.DOTALL\<close>, where the marker
  is \<open>class+\s*dash\<close> for a class of digits or of letters, or a dash alone. The
  characters of the two classes are neither whitespace nor dashes, so only the greedy
  attempt can match a marker. A marker is reported as the length of its group and its
  own length.
\<close>

definition is_persian_digit :: "int \<Rightarrow> bool" where
  "is_persian_digit c \<longleftrightarrow> 0x6F0 \<le> c \<and> c \<le> 0x6F9"

text \<open>
  The class of the lettered pattern: ALEF, LAM and the range from FEH (U+0641) to FARSI
  YEH (U+06CC).
\<close>

definition is_letter :: "int \<Rightarrow> bool" where
  "is_letter c \<longleftrightarrow> c = 0x627 \<or> c = 0x644 \<or> (0x641 \<le> c \<and> c \<le> 0x6CC)"

definition class_marker :: "(int \<Rightarrow> bool) \<Rightarrow> ustr \<Rightarrow> (nat \<times> nat) option" where
  "class_marker cls s =
     (let n = length (takeWhile cls s);
          ws = length (takeWhile isspace (drop n s))
      in if n = 0 then None
         else
           (case drop (n + ws) s of
              [] \<Rightarrow> None
            | d # rest \<Rightarrow> if is_dash d then Some (n, n + ws + 1) else None))"

definition dash_marker :: "ustr \<Rightarrow> (nat \<times> nat) option" where
  "dash_marker s =
     (case s of [] \<Rightarrow> None | d # rest \<Rightarrow> if is_dash d then Some (0, 1) else None)"

text \<open>
  The lazy group has taken a character \<open>prev\<close> already; it takes more until the
  lookahead holds: the text ends, or a marker starts a line.
\<close>

fun lazy_more :: "(ustr \<Rightarrow> (nat \<times> nat) option) \<Rightarrow> int \<Rightarrow> ustr \<Rightarrow> nat" where
  "lazy_more marker prev [] = 0"
| "lazy_more marker prev (c # cs) =
     (if prev = 0x0A \<and> marker (c # cs) \<noteq> None then 0
      else 1 + lazy_more marker c cs)"

text \<open>
  A match at the start of \<open>s\<close>. After the marker the whitespace is taken greedily and
  the group starts behind it; when the whitespace reaches the end of the text, the
  engine gives its last character to the group, which needs one.
\<close>

definition subsection_pattern :: "(ustr \<Rightarrow> (nat \<times> nat) option) \<Rightarrow> ustr \<Rightarrow> (ustr \<times> ustr \<times> nat) option" where
  "subsection_pattern marker s =
     (case marker s of
        None \<Rightarrow> None
      | Some (n, m) \<Rightarrow>
          (let r = drop m s;
               ws = length (takeWhile isspace r)
           in case drop ws r of
                c # cs \<Rightarrow>
                  (let k = 1 + lazy_more marker c cs
                   in Some (take n s, take k (c # cs), m + ws + k))
              | [] \<Rightarrow> if ws = 0 then None else Some (take n s, [last r], length s)))"

text \<open>\<open>s.find(sub)\<close>: the first index where \<open>sub\<close> occurs, or -1.\<close>

fun find_from :: "ustr \<Rightarrow> ustr \<Rightarrow> nat \<Rightarrow> int" where
  "find_from sub [] i = (if sub = [] then int i else - 1)"
| "find_from sub (c # cs) i =
     (if starts_with sub (c # cs) then int i else find_from sub cs (i + 1))"

definition str_find :: "ustr \<Rightarrow> ustr \<Rightarrow> int" where
  "str_find s sub = find_from sub s 0"

text \<open>
  The inner loop of \<open>extract_subsections\<close> for one pattern: a match whose stripped
  content is empty is skipped.
\<close>

definition subsections_of :: "(ustr \<Rightarrow> (nat \<times> nat) option) \<Rightarrow> ustr \<Rightarrow> (re_match \<Rightarrow> ustr) \<Rightarrow> ustr \<Rightarrow> LegalSubsection_dc list" where
  "subsections_of marker subsection_type number article_text =
     map (\<lambda>m. \<lparr>ss_number = number m, ss_content = str_strip (group2 m),
                ss_type = subsection_type\<rparr>)
       (filter (\<lambda>m. str_strip (group2 m) \<noteq> [])
          (finditer (subsection_pattern marker) article_text))"

definition extract_subsections :: "ustr \<Rightarrow> LegalSubsection_dc list" where
  "extract_subsections article_text =
     sort_key (\<lambda>x. str_find article_text (ss_content x))
       (subsections_of (class_marker is_persian_digit) (ascii ''numbered'')
          (\<lambda>m. str_strip (group1 m)) article_text @
        subsections_of (class_marker is_letter) (ascii ''lettered'')
          (\<lambda>m. str_strip (group1 m)) article_text @
        subsections_of dash_marker (ascii ''dash'') (\<lambda>m. [0x2D]) article_text)"

subsection \<open>Notes\<close>

definition extract_notes :: "ustr \<Rightarrow> LegalNote_dc list" where
  "extract_notes article_text =
     map (\<lambda>(note_num, title, note_start, note_end).
            (let note_text = str_strip (slice note_start note_end article_text);
                 note_content = str_strip (re_sub_first note_header note_text)
             in \<lparr>nt_number = note_num, nt_content = note_content,
                 nt_subsections = extract_subsections note_content\<rparr>))
       (note_boundaries article_text)"

subsection \<open>Articles, chapters and documents\<close>

text \<open>
  \<open>s.replace(old, new)\<close> replaces the occurrences of \<open>old\<close> from left to right; an
  empty \<open>old\<close> occurs in front of every character and at the end.
\<close>

function replace_from :: "ustr \<Rightarrow> ustr \<Rightarrow> ustr \<Rightarrow> ustr" where
  "replace_from old new [] = []"
| "replace_from old new (c # cs) =
     (if old \<noteq> [] \<and> starts_with old (c # cs)
      then new @ replace_from old new (drop (length old) (c # cs))
      else c # replace_from old new cs)"
  by pat_completeness auto
termination
  by (relation "measure (\<lambda>(old, new, s). length s)") auto

definition str_replace :: "ustr \<Rightarrow> ustr \<Rightarrow> ustr \<Rightarrow> ustr" where
  "str_replace old new s =
     (if old = [] then new @ concat (map (\<lambda>c. c # new) s) else replace_from old new s)"

text \<open>
  \<open>parse_article\<close>: clean the text, remove the header, extract subsections and notes,
  remove their contents from the main content, collapse the whitespace. The
  dataclass computes \<open>word_count\<close>.
\<close>

definition parse_article :: "(ustr \<Rightarrow> ustr) \<Rightarrow> ustr \<Rightarrow> ustr \<Rightarrow> ustr \<Rightarrow> LegalArticle_dc" where
  "parse_article nfkc article_text article_num article_title =
     (let cleaned_text = clean_text nfkc article_text;
          content_text =
            str_strip
              (re_sub_first single_article_header (re_sub_first article_header cleaned_text));
          subsections = extract_subsections content_text;
          nts = extract_notes content_text;
          without_notes =
            fold (\<lambda>note main_content. str_replace (nt_content note) [] main_content)
              nts content_text;
          without_subsections =
            fold (\<lambda>subsection main_content.
                    str_replace (ss_content subsection) [] main_content)
              subsections without_notes;
          main_content = str_strip (sub_whitespace without_subsections)
      in \<lparr>ar_number = article_num, ar_title = article_title, ar_content = main_content,
          ar_subsections = subsections, ar_notes = nts,
          ar_word_count =
            (if main_content \<noteq> [] then length (str_split main_content) else 0)\<rparr>)"

definition parse_chapter :: "(ustr \<Rightarrow> ustr) \<Rightarrow> ustr \<Rightarrow> ustr \<Rightarrow> ustr \<Rightarrow> LegalChapter_dc" where
  "parse_chapter nfkc chapter_text chapter_num chapter_title =
     \<lparr>ch_number = chapter_num, ch_title = chapter_title,
      ch_articles =
        map (\<lambda>(article_num, article_title, start_pos, end_pos).
               parse_article nfkc (slice start_pos end_pos chapter_text) article_num
                 article_title)
          (extract_articles chapter_text)\<rparr>"

text \<open>
  \<open>parse_document_from_dict\<close> reads a law record as the splitter wrote it. An empty
  \<open>raw_content\<close> raises (the value \<open>None\<close>); nothing else in the body can. Articles are
  parsed on their own only when the text has no chapter. The document type, the
  footnotes, the metadata and the counters of the parser are left out: they do not
  change the chapters and articles.
\<close>

definition parse_document_from_dict :: "(ustr \<Rightarrow> ustr) \<Rightarrow> LawMetadata \<Rightarrow> ParsedLegalDocument option" where
  "parse_document_from_dict nfkc law_dict =
     (let text = raw_content law_dict
      in if text = [] then None
         else
           (let chapters =
                  map (\<lambda>(chapter_num, chapter_title, start_pos, end_pos).
                         parse_chapter nfkc (slice start_pos end_pos text) chapter_num
                           chapter_title)
                    (extract_chapters text);
                standalone_articles =
                  (if chapters = []
                   then map (\<lambda>(article_num, article_title, start_pos, end_pos).
                               parse_article nfkc (slice start_pos end_pos text) article_num
                                 article_title)
                          (extract_articles text)
                   else [])
            in Some \<lparr>pd_id = law_id law_dict, pd_title = law_title law_dict,
                     pd_chapters = chapters,
                     pd_standalone_articles = standalone_articles\<rparr>))"

section \<open>Facts about strings\<close>

lemma isspace_0x20 [simp]: "isspace 0x20"
  by (simp add: isspace_def)

definition is_word :: "ustr \<Rightarrow> bool" where
  "is_word w \<longleftrightarrow> w \<noteq> [] \<and> list_all (\<lambda>c. \<not> isspace c) w"

lemma is_word_Cons: "is_word (c # w) \<longleftrightarrow> \<not> isspace c \<and> (w = [] \<or> is_word w)"
  by (auto simp: is_word_def)

lemma split_from_nonspace:
  "list_all (\<lambda>c. \<not> isspace c) u \<Longrightarrow> split_from w (u @ s) = split_from (w @ u) s"
  by (induction u arbitrary: w) auto

lemma split_from_word_space:
  "is_word u \<Longrightarrow> split_from [] (u @ 0x20 # s) = u # split_from [] s"
  by (simp add: split_from_nonspace is_word_def)

lemma split_from_word_end: "is_word u \<Longrightarrow> split_from [] u = [u]"
  using split_from_nonspace [of u "[]" "[]"] by (simp add: is_word_def)

lemma str_split_join:
  "list_all is_word ws \<Longrightarrow> str_split (str_join [0x20] ws) = ws"
proof (induction ws)
  case Nil
  then show ?case by (simp add: str_split_def)
next
  case (Cons x ws)
  show ?case
  proof (cases ws)
    case Nil
    with Cons.prems show ?thesis by (simp add: str_split_def split_from_word_end)
  next
    case (Cons y ys)
    with Cons.prems Cons.IH show ?thesis
      by (simp add: str_split_def split_from_word_space)
  qed
qed

lemma split_from_words:
  "list_all (\<lambda>c. \<not> isspace c) w \<Longrightarrow> list_all is_word (split_from w s)"
  by (induction s arbitrary: w) (auto simp: is_word_def)

lemma str_split_words: "list_all is_word (str_split s)"
  by (simp add: str_split_def split_from_words)

lemma str_join_nonempty: "list_all is_word ws \<Longrightarrow> ws \<noteq> [] \<Longrightarrow> str_join [0x20] ws \<noteq> []"
proof (cases ws)
  case Nil
  then show "ws \<noteq> [] \<Longrightarrow> ?thesis" by simp
next
  case (Cons x xs)
  then show "list_all is_word ws \<Longrightarrow> ?thesis"
    by (cases xs) (auto simp: is_word_def)
qed

section \<open>Word packing keeps every word\<close>

lemma split_by_words_loop_words:
  "list_all is_word words \<Longrightarrow> list_all is_word cur \<Longrightarrow>
   concat (map str_split (split_by_words_loop mx words chunks cur len)) =
   concat (map str_split chunks) @ cur @ words"
proof (induction words arbitrary: chunks cur len)
  case Nil
  then show ?case by (simp add: str_split_join)
next
  case (Cons word words)
  then show ?case by (simp add: Let_def str_split_join)
qed

lemma split_by_words_loop_nonempty:
  "list_all is_word words \<Longrightarrow> list_all is_word cur \<Longrightarrow> [] \<notin> set chunks \<Longrightarrow>
   [] \<notin> set (split_by_words_loop mx words chunks cur len)"
proof (induction words arbitrary: chunks cur len)
  case Nil
  then show ?case using str_join_nonempty [of cur] by auto
next
  case (Cons word words)
  have "[] \<notin> set (if cur \<noteq> [] then chunks @ [str_join [0x20] cur] else chunks)"
    using Cons.prems str_join_nonempty [of cur] by auto
  with Cons show ?case by (simp add: Let_def)
qed

text \<open>
  C10. Every chunk returned by \<open>split_by_words\<close> is non-empty, and splitting the chunks
  back into whitespace-delimited words and concatenating the lists gives exactly the
  words of the input, in their order: no word is lost, duplicated or reordered.
\<close>

theorem split_by_words_keeps_words:
  "[] \<notin> set (split_by_words cfg s) \<and>
   concat (map str_split (split_by_words cfg s)) = str_split s"
  by (simp add: split_by_words_def split_by_words_loop_words split_by_words_loop_nonempty
      str_split_words)


section \<open>Chunks are built and placed\<close>

lemma new_TextChunk_Inr:
  "new_TextChunk d s t p r = Inr c \<Longrightarrow>
   chunk_position c = p \<and> legal_references c = r \<and> chunk_type c = t \<and>
   chunk_content c = str_strip s \<and> character_count c = int (length (str_strip s))"
  by (auto simp: new_TextChunk_def content_not_empty_def split: if_splits)

lemma build_chunks_length: "build_chunks mk xs = Inr cs \<Longrightarrow> length cs = length xs"
  by (induction xs arbitrary: cs) (auto split: sum.splits)

lemma build_chunks_member:
  "build_chunks mk xs = Inr cs \<Longrightarrow> c \<in> set cs \<Longrightarrow> \<exists>x\<in>set xs. mk x = Inr c"
  by (induction xs arbitrary: cs) (auto split: sum.splits)

definition placed :: "int \<Rightarrow> TextChunk \<Rightarrow> bool" where
  "placed p c \<longleftrightarrow> chunk_position c = p \<and> legal_references c \<noteq> []"

lemma build_chunks_placed:
  "build_chunks (\<lambda>content. new_TextChunk d content t p (r # rs)) xs = Inr cs \<Longrightarrow>
   list_all (placed p) cs"
  unfolding list_all_iff
  by (auto dest!: build_chunks_member new_TextChunk_Inr simp: placed_def)

lemma chunk_subsections_placed:
  "chunk_subsections cfg a d p subs = Inr cs \<Longrightarrow> list_all (placed p) cs"
  by (induction subs arbitrary: cs)
     (auto split: sum.splits if_splits dest: build_chunks_placed)

lemma chunk_notes_placed:
  "chunk_notes cfg a d p ns = Inr cs \<Longrightarrow> list_all (placed p) cs"
  by (induction ns arbitrary: cs)
     (auto split: sum.splits if_splits dest: build_chunks_placed)

lemma chunk_article_placed:
  "chunk_article cfg a d p = Inr cs \<Longrightarrow> list_all (placed p) cs"
  by (auto simp: chunk_article_def split: sum.splits if_splits
      dest: build_chunks_placed chunk_subsections_placed chunk_notes_placed)


definition has_text :: "ustr \<Rightarrow> bool" where
  "has_text s \<longleftrightarrow> list_ex (\<lambda>c. \<not> isspace c) s"

lemma has_text_append [simp]: "has_text (a @ b) \<longleftrightarrow> has_text a \<or> has_text b"
  by (simp add: has_text_def)

lemma has_text_Cons [simp]: "has_text (c # s) \<longleftrightarrow> \<not> isspace c \<or> has_text s"
  by (simp add: has_text_def)

lemma has_text_Nil [simp]: "\<not> has_text []"
  by (simp add: has_text_def)

lemma is_word_has_text: "is_word w \<Longrightarrow> has_text w"
  by (cases w) (auto simp: is_word_def)

lemma dropWhile_all_space:
  "list_all isspace (dropWhile isspace s) \<longleftrightarrow> list_all isspace s"
  by (induction s) auto

lemma str_strip_eq_Nil: "str_strip s = [] \<longleftrightarrow> \<not> has_text s"
proof -
  have "str_strip s = [] \<longleftrightarrow> list_all isspace (dropWhile isspace s)"
    by (simp add: str_strip_def dropWhile_eq_Nil_conv list_all_iff)
  then show ?thesis
    using dropWhile_all_space [of s] by (simp add: has_text_def list_all_iff list_ex_iff)
qed

lemma str_strip_ends:
  assumes "str_strip s \<noteq> []"
  shows "\<not> isspace (hd (str_strip s))" and "\<not> isspace (last (str_strip s))"
proof -
  let ?t = "dropWhile isspace s"
  let ?u = "dropWhile isspace (rev ?t)"
  have u: "?u \<noteq> []" using assms by (simp add: str_strip_def)
  have t: "?t \<noteq> []"
    using u by (cases "?t") (simp_all del: dropWhile_eq_Nil_conv)
  have "last (str_strip s) = hd ?u"
    using u by (simp add: str_strip_def last_rev)
  then show "\<not> isspace (last (str_strip s))"
    using hd_dropWhile [OF u] by simp
  have "hd (str_strip s) = last ?u"
    using u by (simp add: str_strip_def hd_rev)
  also have "\<dots> = last (rev ?t)"
    using u by (metis last_appendR takeWhile_dropWhile_id)
  also have "\<dots> = hd ?t" using t by (simp add: last_rev)
  finally show "\<not> isspace (hd (str_strip s))"
    using hd_dropWhile [OF t] by simp
qed

lemma has_text_strip [simp]: "has_text (str_strip s) \<longleftrightarrow> has_text s"
proof (cases "str_strip s = []")
  case True
  then show ?thesis using str_strip_eq_Nil [of s] by simp
next
  case False
  then obtain c t where ct: "str_strip s = c # t" by (cases "str_strip s") auto
  with str_strip_ends(1) [OF False] have "has_text (str_strip s)" by simp
  with False show ?thesis using str_strip_eq_Nil [of s] by simp
qed

lemma content_not_empty_has_text: "content_not_empty v = Inr v \<Longrightarrow> has_text v"
  using str_strip_eq_Nil [of v] by (auto simp: content_not_empty_def split: if_splits)

lemma new_TextChunk_ok:
  "has_text s \<Longrightarrow> \<exists>c. new_TextChunk d s t p r = Inr c"
  using str_strip_eq_Nil [of s] by (auto simp: new_TextChunk_def content_not_empty_def)

lemma build_chunks_ok:
  "list_all has_text xs \<Longrightarrow> \<exists>cs. build_chunks (\<lambda>content. new_TextChunk d content t p r) xs = Inr cs"
proof (induction xs)
  case Nil
  then show ?case by simp
next
  case (Cons x xs)
  then obtain c cs where "new_TextChunk d x t p r = Inr c"
    and "build_chunks (\<lambda>content. new_TextChunk d content t p r) xs = Inr cs"
    using new_TextChunk_ok [of x d t p r] by auto
  then show ?case by simp
qed

lemma str_join_has_text:
  "list_all is_word ws \<Longrightarrow> ws \<noteq> [] \<Longrightarrow> has_text (str_join [0x20] ws)"
proof (cases ws)
  case Nil
  then show "ws \<noteq> [] \<Longrightarrow> ?thesis" by simp
next
  case (Cons x xs)
  then show "list_all is_word ws \<Longrightarrow> ?thesis"
    by (cases xs) (auto dest: is_word_has_text)
qed

lemma split_by_words_loop_has_text:
  "list_all is_word words \<Longrightarrow> list_all is_word cur \<Longrightarrow> list_all has_text chunks \<Longrightarrow>
   list_all has_text (split_by_words_loop mx words chunks cur len)"
proof (induction words arbitrary: chunks cur len)
  case Nil
  then show ?case using str_join_has_text [of cur] by auto
next
  case (Cons word words)
  have "list_all has_text (if cur \<noteq> [] then chunks @ [str_join [0x20] cur] else chunks)"
    using Cons.prems str_join_has_text [of cur] by auto
  with Cons show ?case by (simp add: Let_def)
qed

lemma split_by_words_has_text: "list_all has_text (split_by_words cfg s)"
  by (simp add: split_by_words_def split_by_words_loop_has_text str_split_words)

lemma split_by_words_loop_eq_Nil:
  "split_by_words_loop mx words chunks cur len = [] \<longleftrightarrow> words = [] \<and> chunks = [] \<and> cur = []"
  by (induction words arbitrary: chunks cur len) (auto simp: Let_def)

lemma split_from_eq_Nil: "split_from w s = [] \<longleftrightarrow> w = [] \<and> \<not> has_text s"
  by (induction s arbitrary: w) auto

lemma split_by_words_eq_Nil: "split_by_words cfg s = [] \<longleftrightarrow> \<not> has_text s"
  by (simp add: split_by_words_def split_by_words_loop_eq_Nil str_split_def split_from_eq_Nil)

lemma split_sentences_has_text: "list_all has_text (split_sentences text)"
  by (auto simp: split_sentences_def list_all_iff str_strip_eq_Nil)

lemma has_text_butlast_last:
  "list_all has_text xs \<Longrightarrow> list_all has_text (butlast xs) \<and> (xs \<noteq> [] \<longrightarrow> has_text (last xs))"
  by (induction xs) auto

lemma pack_sentences_has_text:
  "list_all has_text sentences \<Longrightarrow> list_all has_text chunks \<Longrightarrow>
   current = [] \<or> has_text current \<Longrightarrow>
   list_all has_text (pack_sentences cfg sentences chunks current)"
proof (induction sentences arbitrary: chunks current)
  case Nil
  then show ?case by auto
next
  case (Cons sentence rest)
  let ?wc = "split_by_words cfg sentence"
  have wc: "list_all has_text (butlast ?wc)" "?wc \<noteq> [] \<longrightarrow> has_text (last ?wc)"
    using has_text_butlast_last [OF split_by_words_has_text, of cfg sentence] by auto
  let ?c1 = "if current \<noteq> [] then chunks @ [str_strip current] else chunks"
  let ?pot = "if current \<noteq> [] then current @ [0x20] @ sentence else sentence"
  have c1: "list_all has_text ?c1"
    using Cons.prems by auto
  have r: "list_all has_text rest" and s: "has_text sentence"
    using Cons.prems by simp_all
  show ?case
  proof (cases "int (length ?pot) \<le> max_chunk_size cfg")
    case True
    have "list_all has_text (pack_sentences cfg rest chunks ?pot)"
      using r s Cons.prems(2) by (intro Cons.IH) auto
    with True show ?thesis by (simp add: Let_def)
  next
    case False
    show ?thesis
    proof (cases "int (length sentence) \<le> max_chunk_size cfg")
      case True
      have "list_all has_text (pack_sentences cfg rest ?c1 sentence)"
        using r s c1 by (intro Cons.IH) auto
      with False True show ?thesis by (simp add: Let_def)
    next
      case F2: False
      have "list_all has_text
              (pack_sentences cfg rest (?c1 @ butlast ?wc) (if ?wc \<noteq> [] then last ?wc else []))"
        using r wc c1 by (intro Cons.IH) auto
      with False F2 show ?thesis by (simp add: Let_def)
    qed
  qed
qed


lemma pack_sentences_eq_Nil:
  "list_all has_text sentences \<Longrightarrow>
   pack_sentences cfg sentences chunks current = [] \<longleftrightarrow>
   sentences = [] \<and> chunks = [] \<and> current = []"
proof (induction sentences arbitrary: chunks current)
  case Nil
  then show ?case by auto
next
  case (Cons sentence rest)
  have s: "sentence \<noteq> []" using Cons.prems by auto
  have wc: "split_by_words cfg sentence \<noteq> []"
    using Cons.prems by (simp add: split_by_words_eq_Nil)
  then have "last (split_by_words cfg sentence) \<noteq> []"
    using has_text_butlast_last [OF split_by_words_has_text, of cfg sentence] by auto
  with s wc Cons.prems show ?case
    by (simp add: Let_def Cons.IH)
qed

lemma add_overlap_from_length: "length (add_overlap_from cfg prev xs) = length xs"
  by (induction xs arbitrary: prev) (auto simp: Let_def)

lemma add_overlap_from_has_text:
  "list_all has_text xs \<Longrightarrow> list_all has_text (add_overlap_from cfg prev xs)"
  by (induction xs arbitrary: prev) (auto simp: Let_def)

lemma add_overlap_length [simp]: "length (add_overlap_to_chunks cfg xs) = length xs"
  by (auto simp: add_overlap_to_chunks_def add_overlap_from_length split: list.splits)

lemma add_overlap_has_text:
  "list_all has_text xs \<Longrightarrow> list_all has_text (add_overlap_to_chunks cfg xs)"
  by (auto simp: add_overlap_to_chunks_def add_overlap_from_has_text split: list.splits)

lemma split_pieces_has_text: "list_all has_text (split_pieces cfg content)"
  by (simp add: split_pieces_def Let_def pack_sentences_has_text split_sentences_has_text
      split_by_words_has_text)

lemma split_pieces_nonempty: "has_text content \<Longrightarrow> split_pieces cfg content \<noteq> []"
  using pack_sentences_eq_Nil [OF split_sentences_has_text, of cfg content "[]" "[]"]
  by (auto simp: split_pieces_def Let_def split_by_words_eq_Nil)

lemma content_chunks_has_text:
  "has_text text \<Longrightarrow> list_all has_text (content_chunks cfg text) \<and> content_chunks cfg text \<noteq> []"
proof -
  assume t: "has_text text"
  have "length (add_overlap_to_chunks cfg (split_pieces cfg text)) \<noteq> 0"
    using split_pieces_nonempty [OF t] by simp
  then have "add_overlap_to_chunks cfg (split_pieces cfg text) \<noteq> []" by fastforce
  with t show ?thesis
    by (simp add: content_chunks_def split_long_content_def add_overlap_has_text
        split_pieces_has_text)
qed

lemma not_isspace_hyphen [simp]: "\<not> isspace 0x2D"
  by (simp add: isspace_def)

definition ranged :: "int \<Rightarrow> int \<Rightarrow> TextChunk list \<Rightarrow> bool" where
  "ranged lo hi cs \<longleftrightarrow>
     sorted (map chunk_position cs) \<and>
     list_all (\<lambda>c. lo \<le> chunk_position c \<and> chunk_position c \<le> hi \<and> legal_references c \<noteq> []) cs"

lemma ranged_Nil [simp]: "ranged lo hi []"
  by (simp add: ranged_def)

lemma ranged_append:
  "ranged lo m xs \<Longrightarrow> ranged m' hi ys \<Longrightarrow> m \<le> m' \<Longrightarrow> lo \<le> m' \<Longrightarrow> m \<le> hi \<Longrightarrow>
   ranged lo hi (xs @ ys)"
  by (fastforce simp: ranged_def sorted_append list_all_iff)

lemma ranged_mono: "ranged lo hi cs \<Longrightarrow> lo' \<le> lo \<Longrightarrow> hi \<le> hi' \<Longrightarrow> ranged lo' hi' cs"
  by (fastforce simp: ranged_def list_all_iff)

lemma placed_ranged: "list_all (placed p) cs \<Longrightarrow> ranged p p cs"
  by (induction cs) (auto simp: ranged_def placed_def list_all_iff)

lemma chunk_subsections_ok: "\<exists>cs. chunk_subsections cfg a d p subs = Inr cs"
proof (induction subs)
  case Nil
  then show ?case by simp
next
  case (Cons s subs)
  let ?text = "art_number a @ [0x20, 0x2D, 0x20] @ sub_type s @ [0x20] @ sub_number s @
               [0x0A, 0x0A] @ sub_content s"
  have "has_text ?text" by simp
  then have "list_all has_text (content_chunks cfg ?text)"
    using content_chunks_has_text by blast
  from build_chunks_ok [OF this] obtain xs where
    "build_chunks (\<lambda>content. new_TextChunk d content SUBSECTION p
        [art_number a, [0x628, 0x646, 0x62F, 0x20] @ sub_number s])
       (content_chunks cfg ?text) = Inr xs"
    by blast
  with Cons.IH show ?case by auto
qed

lemma chunk_notes_ok: "\<exists>cs. chunk_notes cfg a d p ns = Inr cs"
proof (induction ns)
  case Nil
  then show ?case by simp
next
  case (Cons n ns)
  let ?text = "art_number a @ [0x20, 0x2D, 0x20] @ note_number n @ [0x0A, 0x0A] @ note_content n"
  have "has_text ?text" by simp
  then have "list_all has_text (content_chunks cfg ?text)"
    using content_chunks_has_text by blast
  from build_chunks_ok [OF this] obtain xs where
    "build_chunks (\<lambda>content. new_TextChunk d content NOTE p [art_number a, note_number n])
       (content_chunks cfg ?text) = Inr xs"
    by blast
  with Cons.IH show ?case by auto
qed

lemma chunk_article_ok:
  assumes "valid_article a"
  shows "\<exists>cs. chunk_article cfg a d p = Inr cs \<and> cs \<noteq> []"
proof -
  let ?text = "if art_title a \<noteq> []
               then art_number a @ [0x20, 0x2D, 0x20] @ art_title a @ [0x0A, 0x0A] @ art_content a
               else art_number a @ [0x0A, 0x0A] @ art_content a"
  have c: "has_text (art_content a)"
    using assms by (simp add: valid_article_def content_not_empty_has_text)
  then have ne: "art_content a \<noteq> []" by auto
  have "has_text ?text" using c by simp
  then have cc: "list_all has_text (content_chunks cfg ?text)" "content_chunks cfg ?text \<noteq> []"
    using content_chunks_has_text by blast+
  obtain main where main:
    "build_chunks (\<lambda>content. new_TextChunk d content ARTICLE p [art_number a])
       (content_chunks cfg ?text) = Inr main"
    using build_chunks_ok [OF cc(1)] by blast
  then have "length main = length (content_chunks cfg ?text)"
    by (rule build_chunks_length)
  with cc(2) have m: "main \<noteq> []" by auto
  obtain subs nts where
    "chunk_subsections cfg a d p (art_subsections a) = Inr subs"
    "chunk_notes cfg a d p (art_notes a) = Inr nts"
    using chunk_subsections_ok chunk_notes_ok by blast
  with main m ne show ?thesis
    by (simp add: chunk_article_def)
qed

lemma chunk_articles_from_ok:
  "list_all valid_article as \<Longrightarrow> \<exists>cs. chunk_articles_from cfg d p i as = Inr cs"
proof (induction as arbitrary: i)
  case Nil
  then show ?case by simp
next
  case (Cons a as)
  then obtain cs rest where "chunk_article cfg a d (p + int i + 1) = Inr cs"
    and "chunk_articles_from cfg d p (Suc i) as = Inr rest"
    using chunk_article_ok [of a cfg d "p + int i + 1"] by fastforce
  then show ?case by simp
qed

lemma chunk_articles_from_ranged:
  "list_all valid_article as \<Longrightarrow> chunk_articles_from cfg d p i as = Inr cs \<Longrightarrow>
   ranged (p + int i + 1) (p + int i + int (length as)) cs \<and> length as \<le> length cs"
proof (induction as arbitrary: i cs)
  case Nil
  then show ?case by simp
next
  case (Cons a as)
  from Cons.prems obtain xs ys where
    xs: "chunk_article cfg a d (p + int i + 1) = Inr xs" and
    ys: "chunk_articles_from cfg d p (Suc i) as = Inr ys" and
    cs: "cs = xs @ ys"
    by (auto split: sum.splits)
  have "xs \<noteq> []"
    using chunk_article_ok [of a cfg d "p + int i + 1"] Cons.prems(1) xs by auto
  then have lx: "1 \<le> length xs" by (cases xs) auto
  have wx: "ranged (p + int i + 1) (p + int i + 1) xs"
    using xs by (intro placed_ranged chunk_article_placed)
  have wy: "ranged (p + int (Suc i) + 1) (p + int (Suc i) + int (length as)) ys"
    and ly: "length as \<le> length ys"
    using Cons.IH [OF _ ys] Cons.prems(1) by auto
  have "ranged (p + int i + 1) (p + int (Suc i) + int (length as)) (xs @ ys)"
    using wx wy by (rule ranged_append) auto
  then have "ranged (p + int i + 1) (p + int i + int (length (a # as))) (xs @ ys)"
    by (simp add: algebra_simps)
  with lx ly cs show ?case by simp
qed

lemma chunk_chapter_ok:
  "list_all valid_article (chap_articles ch) \<Longrightarrow> \<exists>cs. chunk_chapter cfg ch d p = Inr cs"
  using new_TextChunk_ok [of "chap_number ch @ [0x20, 0x2D, 0x20] @ chap_title ch" d
      CHAPTER_TITLE p "[chap_number ch]"]
    chunk_articles_from_ok [of "chap_articles ch" cfg d p 0]
  by (auto simp: chunk_chapter_def split: sum.splits)

lemma chunk_chapter_ranged:
  assumes "list_all valid_article (chap_articles ch)" and "chunk_chapter cfg ch d p = Inr cs"
  shows "ranged p (p + int (length cs)) cs"
proof -
  from assms(2) obtain ts as where
    ts: "ts = [] \<or> (\<exists>c. ts = [c] \<and> new_TextChunk d (chap_number ch @ [0x20, 0x2D, 0x20] @ chap_title ch)
             CHAPTER_TITLE p [chap_number ch] = Inr c)" and
    as: "chunk_articles_from cfg d p 0 (chap_articles ch) = Inr as" and
    cs: "cs = ts @ as"
    by (auto simp: chunk_chapter_def split: sum.splits if_splits)
  have wt: "ranged p p ts"
    using ts by (auto simp: ranged_def dest: new_TextChunk_Inr)
  have wa: "ranged (p + 1) (p + int (length (chap_articles ch))) as"
    and la: "length (chap_articles ch) \<le> length as"
    using chunk_articles_from_ranged [OF assms(1) as] by auto
  have "ranged (p + 1) (p + int (length cs)) as"
    using wa la cs by (intro ranged_mono [OF wa]) auto
  with wt have "ranged p (p + int (length cs)) (ts @ as)"
    by (rule ranged_append) auto
  with cs show ?thesis by simp
qed

lemma chunk_chapters_loop_ranged:
  "list_all (\<lambda>c. list_all valid_article (chap_articles c)) chs \<Longrightarrow>
   ranged 0 pc chunks \<Longrightarrow> 0 \<le> pc \<Longrightarrow>
   \<exists>chunks' pc'. chunk_chapters_loop cfg d chs chunks pc = Inr (chunks', pc') \<and>
      ranged 0 pc' chunks' \<and> 0 \<le> pc'"
proof (induction chs arbitrary: chunks pc)
  case Nil
  then show ?case by simp
next
  case (Cons ch chs)
  then obtain cs where cs: "chunk_chapter cfg ch d pc = Inr cs"
    using chunk_chapter_ok [of ch cfg d pc] by auto
  have "ranged pc (pc + int (length cs)) cs"
    using chunk_chapter_ranged [OF _ cs] Cons.prems(1) by simp
  with Cons.prems(2) have "ranged 0 (pc + int (length cs)) (chunks @ cs)"
    by (rule ranged_append) (use Cons.prems(3) in auto)
  from Cons.IH [OF _ this] Cons.prems(1,3) cs show ?case by simp
qed

lemma chunk_standalone_loop_ranged:
  "list_all valid_article as \<Longrightarrow> ranged 0 pc chunks \<Longrightarrow> 0 \<le> pc \<Longrightarrow>
   \<exists>chunks' pc'. chunk_standalone_loop cfg d as chunks pc = Inr (chunks', pc') \<and>
      ranged 0 pc' chunks' \<and> 0 \<le> pc'"
proof (induction as arbitrary: chunks pc)
  case Nil
  then show ?case by simp
next
  case (Cons a as)
  then obtain cs where cs: "chunk_article cfg a d pc = Inr cs"
    using chunk_article_ok [of a cfg d pc] by auto
  have "ranged pc pc cs"
    using cs by (intro placed_ranged chunk_article_placed)
  then have "ranged pc (pc + int (length cs)) cs"
    by (rule ranged_mono) auto
  with Cons.prems(2) have "ranged 0 (pc + int (length cs)) (chunks @ cs)"
    by (rule ranged_append) (use Cons.prems(3) in auto)
  from Cons.IH [OF _ this] Cons.prems(1,3) cs show ?case by simp
qed

lemma str_of_nat_has_text: "has_text (str_of_nat n)"
proof (induction n rule: str_of_nat.induct)
  case (1 n)
  have "n mod 10 < 10" by simp
  then have "\<not> isspace (0x30 + int (n mod 10))"
    unfolding isspace_def by arith
  moreover have "n < 10 \<Longrightarrow> \<not> isspace (0x30 + int n)"
    unfolding isspace_def by arith
  ultimately show ?case by (subst str_of_nat.simps) simp
qed

lemma footnote_chunks_ranged:
  "\<exists>cs. footnote_chunks d fs pc = Inr cs \<and> ranged pc pc cs"
proof (cases fs)
  case Nil
  then show ?thesis by (simp add: footnote_chunks_def)
next
  case (Cons f rest)
  let ?text = "str_join [0x0A, 0x0A] (footnote_lines 0 fs)"
  have "has_text ?text"
    using Cons by (cases rest) (simp_all add: isspace_def)
  then obtain c where c: "new_TextChunk d ?text FOOTNOTE pc [[0x67E, 0x627, 0x648, 0x631, 0x642, 0x6CC]] = Inr c"
    using new_TextChunk_ok by blast
  moreover have "?text \<noteq> []" using \<open>has_text ?text\<close> by auto
  ultimately show ?thesis
    using Cons new_TextChunk_Inr [OF c]
    by (simp add: footnote_chunks_def ranged_def Let_def)
qed

lemma chunk_document_ranged:
  assumes "valid_document doc"
  shows "\<exists>chunks stats' pc. chunk_document cfg stats doc = Inr (chunks, stats') \<and> ranged 0 pc chunks"
proof -
  obtain c1 p1 where l1: "chunk_chapters_loop cfg (doc_id doc) (doc_chapters doc) [] 0 = Inr (c1, p1)"
    and w1: "ranged 0 p1 c1" "0 \<le> p1"
    using chunk_chapters_loop_ranged [of "doc_chapters doc" 0 "[]" cfg "doc_id doc"] assms
    by (auto simp: valid_document_def)
  obtain c2 p2 where l2: "chunk_standalone_loop cfg (doc_id doc) (doc_standalone_articles doc) c1 p1 = Inr (c2, p2)"
    and w2: "ranged 0 p2 c2" "0 \<le> p2"
    using chunk_standalone_loop_ranged [OF _ w1, of "doc_standalone_articles doc" cfg "doc_id doc"] assms
    by (auto simp: valid_document_def)
  obtain f where f: "footnote_chunks (doc_id doc) (doc_footnotes doc) p2 = Inr f" and wf: "ranged p2 p2 f"
    using footnote_chunks_ranged by blast
  have "ranged 0 p2 (c2 @ f)"
    using w2(1) wf by (rule ranged_append) (use w2(2) in auto)
  with l1 l2 f show ?thesis
    by (auto simp: chunk_document_def Let_def)
qed

text \<open>
  C5. For a document that passed its validators, \<open>chunk_document\<close> returns a chunk
  sequence whose \<open>position\<close> values are non-decreasing in emission order, and every
  emitted chunk has a non-empty \<open>legal_references\<close> list.
\<close>

theorem chunk_document_positions:
  assumes "valid_document doc"
  shows "\<exists>chunks stats'. chunk_document cfg stats doc = Inr (chunks, stats') \<and>
           sorted (map chunk_position chunks) \<and>
           list_all (\<lambda>c. legal_references c \<noteq> []) chunks"
  using chunk_document_ranged [OF assms, of cfg stats]
  by (fastforce simp: ranged_def list_all_iff)

section \<open>Chunk sizes\<close>

definition fits :: "int \<Rightarrow> ustr \<Rightarrow> bool" where
  "fits mx s \<longleftrightarrow> int (length s) \<le> mx \<or> list_all (\<lambda>c. \<not> isspace c) s"

definition packed_length :: "ustr list \<Rightarrow> int" where
  "packed_length ws = (\<Sum>w\<leftarrow>ws. int (length w) + 1)"

lemma str_join_length:
  "ws \<noteq> [] \<Longrightarrow> int (length (str_join [0x20] ws)) = packed_length ws - 1"
proof (induction ws)
  case Nil
  then show ?case by simp
next
  case (Cons w ws)
  then show ?case by (cases ws) (auto simp: packed_length_def)
qed

lemma fits_join:
  assumes "list_all is_word cur" and "cur \<noteq> []"
    and "len = packed_length cur" and "len \<le> mx \<or> length cur \<le> 1"
  shows "fits mx (str_join [0x20] cur)"
proof (cases "len \<le> mx")
  case True
  then show ?thesis
    using str_join_length [OF assms(2)] assms(3) by (simp add: fits_def)
next
  case False
  with assms obtain w where "cur = [w]" by (cases cur) auto
  with assms(1) show ?thesis by (simp add: fits_def is_word_def)
qed

lemma split_by_words_loop_fits:
  "list_all is_word words \<Longrightarrow> list_all is_word cur \<Longrightarrow> list_all (fits mx) chunks \<Longrightarrow>
   len = packed_length cur \<Longrightarrow> len \<le> mx \<or> length cur \<le> 1 \<Longrightarrow>
   list_all (fits mx) (split_by_words_loop mx words chunks cur len)"
proof (induction words arbitrary: chunks cur len)
  case Nil
  then show ?case using fits_join [of cur len mx] by auto
next
  case (Cons word words)
  let ?wl = "int (length word) + 1"
  have c1: "list_all (fits mx) (if cur \<noteq> [] then chunks @ [str_join [0x20] cur] else chunks)"
    using Cons.prems fits_join [of cur len mx] by auto
  show ?case
  proof (cases "len + ?wl \<le> mx")
    case True
    have "list_all (fits mx) (split_by_words_loop mx words chunks (cur @ [word]) (len + ?wl))"
      using Cons.prems True by (intro Cons.IH) (auto simp: packed_length_def)
    with True show ?thesis by (simp add: Let_def)
  next
    case False
    have "list_all (fits mx)
            (split_by_words_loop mx words
               (if cur \<noteq> [] then chunks @ [str_join [0x20] cur] else chunks) [word] ?wl)"
      using Cons.prems c1 by (intro Cons.IH) (auto simp: packed_length_def)
    with False show ?thesis by (simp add: Let_def)
  qed
qed

lemma split_by_words_fits: "list_all (fits (max_chunk_size cfg)) (split_by_words cfg s)"
  by (simp add: split_by_words_def split_by_words_loop_fits str_split_words packed_length_def)

lemma str_strip_length: "length (str_strip s) \<le> length s"
  unfolding str_strip_def
  by (metis length_dropWhile_le length_rev order_trans)

lemma str_strip_subset: "set (str_strip s) \<subseteq> set s"
  unfolding str_strip_def
  by (metis set_dropWhileD set_rev subsetI)

lemma fits_strip: "fits mx s \<Longrightarrow> fits mx (str_strip s)"
  using str_strip_length [of s] str_strip_subset [of s]
  by (auto simp: fits_def list_all_iff)

lemma fits_butlast_last:
  "list_all (fits mx) xs \<Longrightarrow> list_all (fits mx) (butlast xs) \<and> (xs \<noteq> [] \<longrightarrow> fits mx (last xs))"
  by (induction xs) auto

lemma fits_Nil [simp]: "fits mx []"
  by (simp add: fits_def)

lemma pack_sentences_fits:
  "list_all (fits (max_chunk_size cfg)) chunks \<Longrightarrow> fits (max_chunk_size cfg) current \<Longrightarrow>
   list_all (fits (max_chunk_size cfg)) (pack_sentences cfg sentences chunks current)"
proof (induction sentences arbitrary: chunks current)
  case Nil
  then show ?case by (auto simp: fits_strip)
next
  case (Cons sentence rest)
  let ?mx = "max_chunk_size cfg"
  let ?wc = "split_by_words cfg sentence"
  let ?c1 = "if current \<noteq> [] then chunks @ [str_strip current] else chunks"
  let ?pot = "if current \<noteq> [] then current @ [0x20] @ sentence else sentence"
  have wc: "list_all (fits ?mx) (butlast ?wc)" "fits ?mx (if ?wc \<noteq> [] then last ?wc else [])"
    using fits_butlast_last [OF split_by_words_fits, of cfg sentence] by auto
  have c1: "list_all (fits ?mx) ?c1"
    using Cons.prems by (auto simp: fits_strip)
  show ?case
  proof (cases "int (length ?pot) \<le> ?mx")
    case True
    then have "fits ?mx ?pot" by (simp add: fits_def)
    then have "list_all (fits ?mx) (pack_sentences cfg rest chunks ?pot)"
      using Cons.prems(1) by (intro Cons.IH)
    with True show ?thesis by (simp add: Let_def)
  next
    case False
    show ?thesis
    proof (cases "int (length sentence) \<le> ?mx")
      case True
      then have "fits ?mx sentence" by (simp add: fits_def)
      then have "list_all (fits ?mx) (pack_sentences cfg rest ?c1 sentence)"
        using c1 by (intro Cons.IH)
      with False True show ?thesis by (simp add: Let_def)
    next
      case F2: False
      have "list_all (fits ?mx)
              (pack_sentences cfg rest (?c1 @ butlast ?wc) (if ?wc \<noteq> [] then last ?wc else []))"
        using wc c1 by (intro Cons.IH) auto
      with False F2 show ?thesis by (simp add: Let_def)
    qed
  qed
qed

lemma split_pieces_fits: "list_all (fits (max_chunk_size cfg)) (split_pieces cfg content)"
  by (simp add: split_pieces_def Let_def pack_sentences_fits split_by_words_fits)

text \<open>
  What a piece of a split content can be under any overlap: it fits, or it carries an
  overlap prefix and is one character longer than the limit at most.
\<close>

definition near :: "chunker_config \<Rightarrow> ustr \<Rightarrow> bool" where
  "near cfg s \<longleftrightarrow>
     fits (max_chunk_size cfg) s \<or>
     (chunk_overlap cfg \<noteq> 0 \<and> int (length s) \<le> max_chunk_size cfg + 1)"

lemma fits_near: "fits (max_chunk_size cfg) s \<Longrightarrow> near cfg s"
  by (simp add: near_def)

lemma near_strip: "near cfg s \<Longrightarrow> near cfg (str_strip s)"
  using str_strip_length [of s] fits_strip [of "max_chunk_size cfg" s]
  by (auto simp: near_def)

lemma add_overlap_from_near:
  "chunk_overlap cfg \<noteq> 0 \<Longrightarrow> list_all (fits (max_chunk_size cfg)) xs \<Longrightarrow>
   list_all (near cfg) (add_overlap_from cfg prev xs)"
  by (induction xs arbitrary: prev) (auto simp: near_def Let_def)

lemma add_overlap_to_chunks_near:
  "list_all (fits (max_chunk_size cfg)) xs \<Longrightarrow> list_all (near cfg) (add_overlap_to_chunks cfg xs)"
proof (cases "length xs \<le> 1 \<or> chunk_overlap cfg = 0")
  case True
  assume "list_all (fits (max_chunk_size cfg)) xs"
  with True show ?thesis
    by (auto simp: add_overlap_to_chunks_def list_all_iff fits_near)
next
  case False
  assume a: "list_all (fits (max_chunk_size cfg)) xs"
  from False obtain x rest where x: "xs = x # rest" by (cases xs) auto
  with a have "fits (max_chunk_size cfg) x" "list_all (fits (max_chunk_size cfg)) rest"
    by simp_all
  with False x show ?thesis
    by (simp add: add_overlap_to_chunks_def fits_near add_overlap_from_near)
qed

lemma content_chunks_near: "list_all (near cfg) (content_chunks cfg text)"
  by (simp add: content_chunks_def should_split_content_def split_long_content_def
      add_overlap_to_chunks_near split_pieces_fits near_def fits_def)

lemma add_overlap_to_chunks_hd:
  "xs \<noteq> [] \<Longrightarrow> add_overlap_to_chunks cfg xs \<noteq> [] \<and> hd (add_overlap_to_chunks cfg xs) = hd xs"
  by (cases xs) (auto simp: add_overlap_to_chunks_def)

lemma add_overlap_to_chunks_Nil [simp]: "add_overlap_to_chunks cfg [] = []"
  by (simp add: add_overlap_to_chunks_def)

lemma content_chunks_first:
  "content_chunks cfg tx \<noteq> [] \<Longrightarrow> fits (max_chunk_size cfg) (hd (content_chunks cfg tx))"
proof (cases "int (length tx) \<le> max_chunk_size cfg")
  case True
  then show ?thesis
    by (simp add: content_chunks_def should_split_content_def fits_def)
next
  case False
  assume n: "content_chunks cfg tx \<noteq> []"
  from False have c: "content_chunks cfg tx = add_overlap_to_chunks cfg (split_pieces cfg tx)"
    by (simp add: content_chunks_def should_split_content_def split_long_content_def)
  with n have p: "split_pieces cfg tx \<noteq> []" by auto
  then have "fits (max_chunk_size cfg) (hd (split_pieces cfg tx))"
    using split_pieces_fits [of cfg tx] by (cases "split_pieces cfg tx") simp_all
  with add_overlap_to_chunks_hd [OF p, of cfg] c show ?thesis by simp
qed

lemma content_chunks_unsplit:
  "int (length text) \<le> max_chunk_size cfg \<Longrightarrow> content_chunks cfg text = [text]"
  by (simp add: content_chunks_def should_split_content_def)

definition chunk_near :: "chunker_config \<Rightarrow> TextChunk \<Rightarrow> bool" where
  "chunk_near cfg c \<longleftrightarrow>
     character_count c \<le> max_chunk_size cfg \<or>
     list_all (\<lambda>x. \<not> isspace x) (chunk_content c) \<or>
     (chunk_overlap cfg \<noteq> 0 \<and> character_count c = max_chunk_size cfg + 1)"

lemma build_chunks_near:
  assumes "list_all (near cfg) xs"
    and "build_chunks (\<lambda>content. new_TextChunk d content t p r) xs = Inr cs"
  shows "list_all (chunk_near cfg) cs"
proof -
  have "chunk_near cfg c" if "c \<in> set cs" for c
  proof -
    from build_chunks_member [OF assms(2) that] obtain x where
      x: "x \<in> set xs" "new_TextChunk d x t p r = Inr c" by blast
    then have "near cfg (str_strip x)"
      using assms(1) by (auto simp: list_all_iff near_strip)
    with new_TextChunk_Inr [OF x(2)] show ?thesis
      by (auto simp: chunk_near_def near_def fits_def)
  qed
  then show ?thesis by (simp add: list_all_iff)
qed

lemma chunk_subsections_near:
  "chunk_subsections cfg a d p subs = Inr cs \<Longrightarrow> list_all (chunk_near cfg) cs"
  by (induction subs arbitrary: cs)
     (auto split: sum.splits if_splits dest: build_chunks_near [OF content_chunks_near])

lemma chunk_notes_near:
  "chunk_notes cfg a d p ns = Inr cs \<Longrightarrow> list_all (chunk_near cfg) cs"
  by (induction ns arbitrary: cs)
     (auto split: sum.splits if_splits dest: build_chunks_near [OF content_chunks_near])

lemma chunk_article_near:
  "chunk_article cfg a d p = Inr cs \<Longrightarrow> list_all (chunk_near cfg) cs"
  by (auto simp: chunk_article_def split: sum.splits if_splits
      dest: build_chunks_near [OF content_chunks_near] chunk_subsections_near chunk_notes_near)

definition bounded :: "chunker_config \<Rightarrow> TextChunk \<Rightarrow> bool" where
  "bounded cfg c \<longleftrightarrow>
     chunk_type c = CHAPTER_TITLE \<or> chunk_type c = FOOTNOTE \<or> chunk_near cfg c"

lemma near_bounded: "list_all (chunk_near cfg) cs \<Longrightarrow> list_all (bounded cfg) cs"
  by (simp add: list_all_iff bounded_def)

lemma chunk_article_bounded:
  "chunk_article cfg a d p = Inr cs \<Longrightarrow> list_all (bounded cfg) cs"
  by (rule near_bounded) (rule chunk_article_near)

lemma chunk_articles_from_bounded:
  "chunk_articles_from cfg d p i as = Inr cs \<Longrightarrow> list_all (bounded cfg) cs"
proof (induction as arbitrary: i cs)
  case Nil
  then show ?case by simp
next
  case (Cons a as)
  from Cons.prems obtain xs ys where
    "chunk_article cfg a d (p + int i + 1) = Inr xs"
    "chunk_articles_from cfg d p (Suc i) as = Inr ys" "cs = xs @ ys"
    by (auto split: sum.splits)
  then show ?case
    using chunk_article_bounded Cons.IH by auto
qed

lemma chunk_chapter_bounded:
  "chunk_chapter cfg ch d p = Inr cs \<Longrightarrow> list_all (bounded cfg) cs"
  by (auto simp: chunk_chapter_def bounded_def split: sum.splits if_splits
      dest: chunk_articles_from_bounded new_TextChunk_Inr)

lemma chunk_chapters_loop_bounded:
  "list_all (bounded cfg) chunks \<Longrightarrow>
   chunk_chapters_loop cfg d chs chunks pc = Inr (chunks', pc') \<Longrightarrow>
   list_all (bounded cfg) chunks'"
proof (induction chs arbitrary: chunks pc)
  case Nil
  then show ?case by simp
next
  case (Cons ch chs)
  from Cons.prems(2) obtain xs where
    xs: "chunk_chapter cfg ch d pc = Inr xs" and
    r: "chunk_chapters_loop cfg d chs (chunks @ xs) (pc + int (length xs)) = Inr (chunks', pc')"
    by (auto split: sum.splits)
  have "list_all (bounded cfg) (chunks @ xs)"
    using Cons.prems(1) chunk_chapter_bounded [OF xs] by simp
  from Cons.IH [OF this r] show ?case .
qed

lemma chunk_standalone_loop_bounded:
  "list_all (bounded cfg) chunks \<Longrightarrow>
   chunk_standalone_loop cfg d as chunks pc = Inr (chunks', pc') \<Longrightarrow>
   list_all (bounded cfg) chunks'"
proof (induction as arbitrary: chunks pc)
  case Nil
  then show ?case by simp
next
  case (Cons a as)
  from Cons.prems(2) obtain xs where
    xs: "chunk_article cfg a d pc = Inr xs" and
    r: "chunk_standalone_loop cfg d as (chunks @ xs) (pc + int (length xs)) = Inr (chunks', pc')"
    by (auto split: sum.splits)
  have "list_all (bounded cfg) (chunks @ xs)"
    using Cons.prems(1) chunk_article_bounded [OF xs] by simp
  from Cons.IH [OF this r] show ?case .
qed

lemma footnote_chunks_bounded:
  "footnote_chunks d fs pc = Inr cs \<Longrightarrow> list_all (bounded cfg) cs"
  by (auto simp: footnote_chunks_def bounded_def Let_def split: if_splits sum.splits
      dest: new_TextChunk_Inr)

lemma chunk_document_bounded:
  assumes "chunk_document cfg stats doc = Inr (chunks, stats')"
  shows "list_all (bounded cfg) chunks"
proof -
  from assms obtain c1 p1 c2 p2 f where
    "chunk_chapters_loop cfg (doc_id doc) (doc_chapters doc) [] 0 = Inr (c1, p1)"
    "chunk_standalone_loop cfg (doc_id doc) (doc_standalone_articles doc) c1 p1 = Inr (c2, p2)"
    "footnote_chunks (doc_id doc) (doc_footnotes doc) p2 = Inr f"
    "chunks = c2 @ f"
    by (auto simp: chunk_document_def Let_def split: sum.splits prod.splits)
  then show ?thesis
    using chunk_chapters_loop_bounded [of cfg "[]"]
      chunk_standalone_loop_bounded footnote_chunks_bounded
    by fastforce
qed

text \<open>
  The texts that \<open>chunk_document\<close> turns into chunks, in the order of the chunks, each
  with the type of its chunk: for an article its own text, then its subsections and its
  notes, each one cut by \<open>content_chunks\<close>; for a chapter its title line and its
  articles; for the document its chapters, its standalone articles and the footnote
  text.
\<close>

definition article_pieces :: "chunker_config \<Rightarrow> LegalArticle \<Rightarrow> (ChunkType \<times> ustr) list" where
  "article_pieces cfg article =
     (if art_content article \<noteq> []
      then map (Pair ARTICLE)
             (content_chunks cfg
                (if art_title article \<noteq> []
                 then art_number article @ [0x20, 0x2D, 0x20] @ art_title article @
                      [0x0A, 0x0A] @ art_content article
                 else art_number article @ [0x0A, 0x0A] @ art_content article))
      else []) @
     concat
       (map (\<lambda>subsection.
               if sub_content subsection \<noteq> []
               then map (Pair SUBSECTION)
                      (content_chunks cfg
                         (art_number article @ [0x20, 0x2D, 0x20] @ sub_type subsection @
                          [0x20] @ sub_number subsection @ [0x0A, 0x0A] @
                          sub_content subsection))
               else [])
          (art_subsections article)) @
     concat
       (map (\<lambda>note.
               if note_content note \<noteq> []
               then map (Pair NOTE)
                      (content_chunks cfg
                         (art_number article @ [0x20, 0x2D, 0x20] @ note_number note @
                          [0x0A, 0x0A] @ note_content note))
               else [])
          (art_notes article))"

definition chapter_pieces :: "chunker_config \<Rightarrow> LegalChapter \<Rightarrow> (ChunkType \<times> ustr) list" where
  "chapter_pieces cfg chapter =
     (if chap_title chapter \<noteq> []
      then [(CHAPTER_TITLE, chap_number chapter @ [0x20, 0x2D, 0x20] @ chap_title chapter)]
      else []) @
     concat (map (article_pieces cfg) (chap_articles chapter))"

definition footnote_pieces :: "ustr list \<Rightarrow> (ChunkType \<times> ustr) list" where
  "footnote_pieces footnotes =
     (if footnotes \<noteq> [] \<and> str_join [0x0A, 0x0A] (footnote_lines 0 footnotes) \<noteq> []
      then [(FOOTNOTE, str_join [0x0A, 0x0A] (footnote_lines 0 footnotes))]
      else [])"

definition document_pieces :: "chunker_config \<Rightarrow> LegalDocument \<Rightarrow> (ChunkType \<times> ustr) list" where
  "document_pieces cfg document =
     concat (map (chapter_pieces cfg) (doc_chapters document)) @
     concat (map (article_pieces cfg) (doc_standalone_articles document)) @
     footnote_pieces (doc_footnotes document)"

text \<open>
  A chunk holds a piece when it has the type of the piece, its stripped text, and the
  length of that text as its \<open>character_count\<close>.
\<close>

definition holds :: "TextChunk \<Rightarrow> ChunkType \<times> ustr \<Rightarrow> bool" where
  "holds c piece \<longleftrightarrow>
     chunk_type c = fst piece \<and> chunk_content c = str_strip (snd piece) \<and>
     character_count c = int (length (str_strip (snd piece)))"

lemma build_chunks_holds:
  "build_chunks (\<lambda>content. new_TextChunk d content t p r) xs = Inr cs \<Longrightarrow>
   list_all2 holds cs (map (Pair t) xs)"
  by (induction xs arbitrary: cs)
     (auto split: sum.splits simp: holds_def dest: new_TextChunk_Inr)

lemma chunk_subsections_holds:
  "chunk_subsections cfg a d p subs = Inr cs \<Longrightarrow>
   list_all2 holds cs
     (concat
        (map (\<lambda>subsection.
                if sub_content subsection \<noteq> []
                then map (Pair SUBSECTION)
                       (content_chunks cfg
                          (art_number a @ [0x20, 0x2D, 0x20] @ sub_type subsection @
                           [0x20] @ sub_number subsection @ [0x0A, 0x0A] @
                           sub_content subsection))
                else [])
           subs))"
proof (induction subs arbitrary: cs)
  case Nil
  then show ?case by simp
next
  case (Cons s subs)
  from Cons.prems obtain xs ys where
    xs: "(if sub_content s \<noteq> []
          then build_chunks
                 (\<lambda>content. new_TextChunk d content SUBSECTION p
                    [art_number a, [0x628, 0x646, 0x62F, 0x20] @ sub_number s])
                 (content_chunks cfg
                    (art_number a @ [0x20, 0x2D, 0x20] @ sub_type s @ [0x20] @
                     sub_number s @ [0x0A, 0x0A] @ sub_content s))
          else Inr []) = Inr xs"
    and ys: "chunk_subsections cfg a d p subs = Inr ys" and cs: "cs = xs @ ys"
    by (auto split: sum.splits)
  from xs have "list_all2 holds xs
      (if sub_content s \<noteq> []
       then map (Pair SUBSECTION)
              (content_chunks cfg
                 (art_number a @ [0x20, 0x2D, 0x20] @ sub_type s @ [0x20] @
                  sub_number s @ [0x0A, 0x0A] @ sub_content s))
       else [])"
    by (auto split: if_splits dest: build_chunks_holds)
  with Cons.IH [OF ys] cs show ?case
    by (simp add: list_all2_appendI)
qed

lemma chunk_notes_holds:
  "chunk_notes cfg a d p ns = Inr cs \<Longrightarrow>
   list_all2 holds cs
     (concat
        (map (\<lambda>note.
                if note_content note \<noteq> []
                then map (Pair NOTE)
                       (content_chunks cfg
                          (art_number a @ [0x20, 0x2D, 0x20] @ note_number note @
                           [0x0A, 0x0A] @ note_content note))
                else [])
           ns))"
proof (induction ns arbitrary: cs)
  case Nil
  then show ?case by simp
next
  case (Cons n ns)
  from Cons.prems obtain xs ys where
    xs: "(if note_content n \<noteq> []
          then build_chunks
                 (\<lambda>content. new_TextChunk d content NOTE p [art_number a, note_number n])
                 (content_chunks cfg
                    (art_number a @ [0x20, 0x2D, 0x20] @ note_number n @
                     [0x0A, 0x0A] @ note_content n))
          else Inr []) = Inr xs"
    and ys: "chunk_notes cfg a d p ns = Inr ys" and cs: "cs = xs @ ys"
    by (auto split: sum.splits)
  from xs have "list_all2 holds xs
      (if note_content n \<noteq> []
       then map (Pair NOTE)
              (content_chunks cfg
                 (art_number a @ [0x20, 0x2D, 0x20] @ note_number n @
                  [0x0A, 0x0A] @ note_content n))
       else [])"
    by (auto split: if_splits dest: build_chunks_holds)
  with Cons.IH [OF ys] cs show ?case
    by (simp add: list_all2_appendI)
qed

lemma chunk_article_holds:
  assumes "chunk_article cfg a d p = Inr cs"
  shows "list_all2 holds cs (article_pieces cfg a)"
proof -
  let ?t = "if art_title a \<noteq> []
            then art_number a @ [0x20, 0x2D, 0x20] @ art_title a @ [0x0A, 0x0A] @ art_content a
            else art_number a @ [0x0A, 0x0A] @ art_content a"
  from assms obtain xs ys zs where
    xs: "(if art_content a \<noteq> []
          then build_chunks (\<lambda>content. new_TextChunk d content ARTICLE p [art_number a])
                 (content_chunks cfg ?t)
          else Inr []) = Inr xs"
    and ys: "chunk_subsections cfg a d p (art_subsections a) = Inr ys"
    and zs: "chunk_notes cfg a d p (art_notes a) = Inr zs"
    and cs: "cs = xs @ ys @ zs"
    unfolding chunk_article_def by (auto split: sum.splits)
  from xs have x: "list_all2 holds xs
      (if art_content a \<noteq> [] then map (Pair ARTICLE) (content_chunks cfg ?t) else [])"
    by (auto split: if_splits dest: build_chunks_holds)
  show ?thesis
    unfolding article_pieces_def cs
    by (intro list_all2_appendI x chunk_subsections_holds [OF ys] chunk_notes_holds [OF zs])
qed

lemma chunk_articles_from_holds:
  "chunk_articles_from cfg d p i as = Inr cs \<Longrightarrow>
   list_all2 holds cs (concat (map (article_pieces cfg) as))"
proof (induction as arbitrary: i cs)
  case Nil
  then show ?case by simp
next
  case (Cons a as)
  from Cons.prems obtain xs ys where
    "chunk_article cfg a d (p + int i + 1) = Inr xs"
    "chunk_articles_from cfg d p (Suc i) as = Inr ys" "cs = xs @ ys"
    by (auto split: sum.splits)
  then show ?case
    using chunk_article_holds Cons.IH by (auto intro: list_all2_appendI)
qed

lemma chunk_chapter_holds:
  assumes "chunk_chapter cfg ch d p = Inr cs"
  shows "list_all2 holds cs (chapter_pieces cfg ch)"
proof -
  from assms obtain xs ys where
    xs: "(if chap_title ch \<noteq> []
          then (case new_TextChunk d (chap_number ch @ [0x20, 0x2D, 0x20] @ chap_title ch)
                       CHAPTER_TITLE p [chap_number ch] of
                  Inl e \<Rightarrow> Inl e
                | Inr chunk \<Rightarrow> Inr [chunk])
          else Inr []) = Inr xs"
    and ys: "chunk_articles_from cfg d p 0 (chap_articles ch) = Inr ys"
    and cs: "cs = xs @ ys"
    unfolding chunk_chapter_def by (auto split: sum.splits)
  from xs have x: "list_all2 holds xs
      (if chap_title ch \<noteq> []
       then [(CHAPTER_TITLE, chap_number ch @ [0x20, 0x2D, 0x20] @ chap_title ch)] else [])"
    by (auto split: if_splits sum.splits simp: holds_def dest: new_TextChunk_Inr)
  show ?thesis
    unfolding chapter_pieces_def cs
    by (intro list_all2_appendI x chunk_articles_from_holds [OF ys])
qed

lemma chunk_chapters_loop_holds:
  "list_all2 holds chunks pieces \<Longrightarrow>
   chunk_chapters_loop cfg d chs chunks pc = Inr (chunks', pc') \<Longrightarrow>
   list_all2 holds chunks' (pieces @ concat (map (chapter_pieces cfg) chs))"
proof (induction chs arbitrary: chunks pieces pc)
  case Nil
  then show ?case by simp
next
  case (Cons ch chs)
  from Cons.prems(2) obtain xs where
    xs: "chunk_chapter cfg ch d pc = Inr xs" and
    r: "chunk_chapters_loop cfg d chs (chunks @ xs) (pc + int (length xs)) = Inr (chunks', pc')"
    by (auto split: sum.splits)
  have "list_all2 holds (chunks @ xs) (pieces @ chapter_pieces cfg ch)"
    using Cons.prems(1) chunk_chapter_holds [OF xs] by (rule list_all2_appendI)
  from Cons.IH [OF this r] show ?case by simp
qed

lemma chunk_standalone_loop_holds:
  "list_all2 holds chunks pieces \<Longrightarrow>
   chunk_standalone_loop cfg d as chunks pc = Inr (chunks', pc') \<Longrightarrow>
   list_all2 holds chunks' (pieces @ concat (map (article_pieces cfg) as))"
proof (induction as arbitrary: chunks pieces pc)
  case Nil
  then show ?case by simp
next
  case (Cons a as)
  from Cons.prems(2) obtain xs where
    xs: "chunk_article cfg a d pc = Inr xs" and
    r: "chunk_standalone_loop cfg d as (chunks @ xs) (pc + int (length xs)) = Inr (chunks', pc')"
    by (auto split: sum.splits)
  have "list_all2 holds (chunks @ xs) (pieces @ article_pieces cfg a)"
    using Cons.prems(1) chunk_article_holds [OF xs] by (rule list_all2_appendI)
  from Cons.IH [OF this r] show ?case by simp
qed

lemma footnote_chunks_holds:
  "footnote_chunks d fs pc = Inr cs \<Longrightarrow> list_all2 holds cs (footnote_pieces fs)"
  by (auto simp: footnote_chunks_def footnote_pieces_def holds_def Let_def
      split: if_splits sum.splits dest: new_TextChunk_Inr)

lemma chunk_document_holds:
  assumes "chunk_document cfg stats doc = Inr (chunks, stats')"
  shows "list_all2 holds chunks (document_pieces cfg doc)"
proof -
  from assms obtain c1 p1 c2 p2 f where
    c1: "chunk_chapters_loop cfg (doc_id doc) (doc_chapters doc) [] 0 = Inr (c1, p1)" and
    c2: "chunk_standalone_loop cfg (doc_id doc) (doc_standalone_articles doc) c1 p1 = Inr (c2, p2)"
    and f: "footnote_chunks (doc_id doc) (doc_footnotes doc) p2 = Inr f"
    and c: "chunks = c2 @ f"
    by (auto simp: chunk_document_def Let_def split: sum.splits prod.splits)
  have "list_all2 holds [] []" by simp
  from chunk_chapters_loop_holds [OF this c1]
  have "list_all2 holds c1 (concat (map (chapter_pieces cfg) (doc_chapters doc)))" by simp
  from chunk_standalone_loop_holds [OF this c2]
  have "list_all2 holds c2
          (concat (map (chapter_pieces cfg) (doc_chapters doc)) @
           concat (map (article_pieces cfg) (doc_standalone_articles doc)))" .
  from list_all2_appendI [OF this footnote_chunks_holds [OF f]]
  show ?thesis
    unfolding document_pieces_def c by simp
qed

lemma tally_sizes_undersized:
  "undersized_chunks (tally_sizes cfg cs st) =
   undersized_chunks st +
   int (length (filter (\<lambda>c. \<not> character_count c > max_chunk_size cfg \<and>
                              character_count c < min_chunk_size cfg) cs))"
  by (induction cs arbitrary: st) auto

lemma min_split_by_words [simp]:
  "split_by_words (cfg\<lparr>min_chunk_size := m\<rparr>) s = split_by_words cfg s"
  by (simp add: split_by_words_def)

lemma min_add_overlap_from [simp]:
  "add_overlap_from (cfg\<lparr>min_chunk_size := m\<rparr>) prev xs = add_overlap_from cfg prev xs"
  by (induction xs arbitrary: prev) (auto simp: Let_def)

lemma min_pack_sentences [simp]:
  "pack_sentences (cfg\<lparr>min_chunk_size := m\<rparr>) ss chunks cur = pack_sentences cfg ss chunks cur"
  by (induction ss arbitrary: chunks cur) (simp_all add: Let_def)

lemma min_content_chunks [simp]:
  "content_chunks (cfg\<lparr>min_chunk_size := m\<rparr>) text = content_chunks cfg text"
  by (simp add: content_chunks_def should_split_content_def split_long_content_def
      split_pieces_def add_overlap_to_chunks_def Let_def cong: list.case_cong)

lemma min_chunk_subsections [simp]:
  "chunk_subsections (cfg\<lparr>min_chunk_size := m\<rparr>) a d p subs = chunk_subsections cfg a d p subs"
  by (induction subs) (simp_all cong: sum.case_cong)

lemma min_chunk_notes [simp]:
  "chunk_notes (cfg\<lparr>min_chunk_size := m\<rparr>) a d p ns = chunk_notes cfg a d p ns"
  by (induction ns) (simp_all cong: sum.case_cong)

lemma min_chunk_article [simp]:
  "chunk_article (cfg\<lparr>min_chunk_size := m\<rparr>) a d p = chunk_article cfg a d p"
  by (simp add: chunk_article_def cong: sum.case_cong)

lemma min_chunk_articles_from [simp]:
  "chunk_articles_from (cfg\<lparr>min_chunk_size := m\<rparr>) d p i as = chunk_articles_from cfg d p i as"
  by (induction as arbitrary: i) (simp_all cong: sum.case_cong)

lemma min_chunk_chapter [simp]:
  "chunk_chapter (cfg\<lparr>min_chunk_size := m\<rparr>) ch d p = chunk_chapter cfg ch d p"
  by (simp add: chunk_chapter_def cong: sum.case_cong)

lemma min_chunk_chapters_loop [simp]:
  "chunk_chapters_loop (cfg\<lparr>min_chunk_size := m\<rparr>) d chs chunks pc =
   chunk_chapters_loop cfg d chs chunks pc"
  by (induction chs arbitrary: chunks pc) (simp_all split: sum.splits)

lemma min_chunk_standalone_loop [simp]:
  "chunk_standalone_loop (cfg\<lparr>min_chunk_size := m\<rparr>) d as chunks pc =
   chunk_standalone_loop cfg d as chunks pc"
  by (induction as arbitrary: chunks pc) (simp_all split: sum.splits)

lemma chunk_document_min:
  "chunk_document cfg stats doc = Inr (chunks, stats') \<Longrightarrow>
   \<exists>stats''. chunk_document (cfg\<lparr>min_chunk_size := m\<rparr>) stats doc = Inr (chunks, stats'')"
  by (auto simp: chunk_document_def Let_def split: sum.splits prod.splits)

lemma chunk_document_undersized:
  "chunk_document cfg stats doc = Inr (chunks, stats') \<Longrightarrow>
   undersized_chunks stats' =
   undersized_chunks stats +
   int (length (filter (\<lambda>c. \<not> character_count c > max_chunk_size cfg \<and>
                              character_count c < min_chunk_size cfg) chunks))"
  by (auto simp: chunk_document_def Let_def tally_sizes_undersized split: sum.splits prod.splits)

text \<open>
  C1, as amended. Whenever \<open>chunk_document\<close> returns, under every configuration: every
  article, subsection and note chunk has a \<open>character_count\<close> of at most
  \<open>max_chunk_size\<close>, unless it is a single word without any whitespace or, with an
  overlap configured, it has exactly one character more (a chunk that received an
  overlap prefix); chapter-title and footnote chunks are never split and carry no bound.
  The chunks are the pieces of the document, in order and each one stripped, with its
  length as \<open>character_count\<close>: no piece is dropped, whatever its size. A text within
  \<open>max_chunk_size\<close> is one piece, unchanged, and the first piece of every text is within
  \<open>max_chunk_size\<close> or a single word. The undersized counter grows by the number of
  emitted chunks that are below \<open>min_chunk_size\<close> and not above \<open>max_chunk_size\<close>, and
  the emitted chunk list is the same for every value of \<open>min_chunk_size\<close>.
\<close>

theorem chunk_sizes:
  assumes "chunk_document cfg stats doc = Inr (chunks, stats')"
  shows "list_all (\<lambda>c. chunk_type c = ARTICLE \<or> chunk_type c = SUBSECTION \<or> chunk_type c = NOTE \<longrightarrow>
                      character_count c \<le> max_chunk_size cfg \<or>
                      list_all (\<lambda>x. \<not> isspace x) (chunk_content c) \<or>
                      chunk_overlap cfg \<noteq> 0 \<and> character_count c = max_chunk_size cfg + 1)
           chunks \<and>
         list_all2 (\<lambda>c piece. chunk_type c = fst piece \<and> chunk_content c = str_strip (snd piece) \<and>
                      character_count c = int (length (str_strip (snd piece))))
           chunks (document_pieces cfg doc) \<and>
         (int (length tx) \<le> max_chunk_size cfg \<longrightarrow> content_chunks cfg tx = [tx]) \<and>
         (content_chunks cfg tx \<noteq> [] \<longrightarrow>
            int (length (hd (content_chunks cfg tx))) \<le> max_chunk_size cfg \<or>
            list_all (\<lambda>x. \<not> isspace x) (hd (content_chunks cfg tx))) \<and>
         undersized_chunks stats' =
           undersized_chunks stats +
           int (length (filter (\<lambda>c. \<not> character_count c > max_chunk_size cfg \<and>
                                      character_count c < min_chunk_size cfg) chunks)) \<and>
         (\<forall>m. \<exists>stats''. chunk_document (cfg\<lparr>min_chunk_size := m\<rparr>) stats doc = Inr (chunks, stats''))"
proof -
  have a: "list_all (\<lambda>c. chunk_type c = ARTICLE \<or> chunk_type c = SUBSECTION \<or> chunk_type c = NOTE \<longrightarrow>
                      character_count c \<le> max_chunk_size cfg \<or>
                      list_all (\<lambda>x. \<not> isspace x) (chunk_content c) \<or>
                      chunk_overlap cfg \<noteq> 0 \<and> character_count c = max_chunk_size cfg + 1)
           chunks"
    using chunk_document_bounded [OF assms]
    by (auto simp: list_all_iff bounded_def chunk_near_def)
  have b: "list_all2 (\<lambda>c piece. chunk_type c = fst piece \<and> chunk_content c = str_strip (snd piece) \<and>
                      character_count c = int (length (str_strip (snd piece))))
           chunks (document_pieces cfg doc)"
    using chunk_document_holds [OF assms] by (simp add: holds_def [abs_def])
  have c: "int (length tx) \<le> max_chunk_size cfg \<longrightarrow> content_chunks cfg tx = [tx]"
    by (simp add: content_chunks_unsplit)
  have d: "content_chunks cfg tx \<noteq> [] \<longrightarrow>
            int (length (hd (content_chunks cfg tx))) \<le> max_chunk_size cfg \<or>
            list_all (\<lambda>x. \<not> isspace x) (hd (content_chunks cfg tx))"
    using content_chunks_first [of cfg tx] by (simp add: fits_def)
  from a b c d chunk_document_undersized [OF assms] chunk_document_min [OF assms]
  show ?thesis by blast
qed

definition stats0 :: chunking_stats where
  "stats0 = \<lparr>documents_chunked = 0, total_chunks_created = 0, oversized_chunks = 0,
             undersized_chunks = 0\<rparr>"

definition long_title_document :: LegalDocument where
  "long_title_document =
     \<lparr>doc_id = ascii ''doc'',
      doc_chapters = [\<lparr>chap_number = ascii ''ch1'', chap_title = replicate 101 0x61,
                       chap_articles = []\<rparr>],
      doc_standalone_articles = [], doc_footnotes = []\<rparr>"

text \<open>
  The claim as stated fails on a chapter title: the title chunk is built from the whole
  title and is emitted with 107 characters under a maximum of 100. It is the only chunk
  of the document, and no greedy split produced it.
\<close>

theorem chapter_title_chunk_exceeds_max:
  "chunk_document \<lparr>min_chunk_size = 50, max_chunk_size = 100, chunk_overlap = 0\<rparr> stats0
     long_title_document =
   Inr ([\<lparr>chunk_document_id = ascii ''doc'',
          chunk_content = ascii ''ch1 - '' @ replicate 101 0x61,
          chunk_type = CHAPTER_TITLE, chunk_position = 0, chunk_word_count = 3,
          character_count = 107, legal_references = [ascii ''ch1'']\<rparr>],
        \<lparr>documents_chunked = 1, total_chunks_created = 1, oversized_chunks = 1,
         undersized_chunks = 0\<rparr>)"
  by code_simp

definition small_document :: LegalDocument where
  "small_document =
     \<lparr>doc_id = ascii ''doc'',
      doc_chapters =
        [\<lparr>chap_number = ascii ''ch1'', chap_title = ascii ''rules'',
          chap_articles =
            [\<lparr>art_number = ascii ''a1'', art_title = [],
              art_content = ascii ''one two three four five six seven eight nine ten'',
              art_subsections = [\<lparr>sub_number = ascii ''1'', sub_content = ascii ''sub text'',
                                  sub_type = ascii ''numbered''\<rparr>],
              art_notes = [\<lparr>note_number = ascii ''n1'', note_content = ascii ''note text''\<rparr>]\<rparr>]\<rparr>],
      doc_standalone_articles =
        [\<lparr>art_number = ascii ''a2'', art_title = ascii ''t'', art_content = ascii ''short'',
          art_subsections = [], art_notes = []\<rparr>],
      doc_footnotes = [ascii ''fn'']\<rparr>"

definition small_config :: chunker_config where
  "small_config = \<lparr>min_chunk_size = 10, max_chunk_size = 20, chunk_overlap = 0\<rparr>"


definition overlap_config :: chunker_config where
  "overlap_config = \<lparr>min_chunk_size = 10, max_chunk_size = 20, chunk_overlap = 10\<rparr>"

theorem chunk_sizes_witness:
  "\<exists>chunks stats'.
     chunk_document overlap_config stats0 small_document = Inr (chunks, stats') \<and>
     map character_count chunks = [11, 16, 19, 20, 19, 8, 18, 13, 12] \<and>
     list_all (\<lambda>c. chunk_type c = ARTICLE \<or> chunk_type c = SUBSECTION \<or> chunk_type c = NOTE \<longrightarrow>
                 character_count c \<le> max_chunk_size overlap_config \<or>
                 list_all (\<lambda>x. \<not> isspace x) (chunk_content c) \<or>
                 chunk_overlap overlap_config \<noteq> 0 \<and>
                 character_count c = max_chunk_size overlap_config + 1) chunks \<and>
     list_all2 (\<lambda>c piece. chunk_type c = fst piece \<and> chunk_content c = str_strip (snd piece) \<and>
                  character_count c = int (length (str_strip (snd piece))))
       chunks (document_pieces overlap_config small_document) \<and>
     undersized_chunks stats' = 1"
proof -
  have e: "map_sum id (\<lambda>r. (map character_count (fst r), undersized_chunks (snd r)))
             (chunk_document overlap_config stats0 small_document) =
           Inr ([11, 16, 19, 20, 19, 8, 18, 13, 12], 1)"
    by code_simp
  then obtain chunks stats' where
    r: "chunk_document overlap_config stats0 small_document = Inr (chunks, stats')"
    by (cases "chunk_document overlap_config stats0 small_document") auto
  from e r have c: "map character_count chunks = [11, 16, 19, 20, 19, 8, 18, 13, 12]"
    and u: "undersized_chunks stats' = 1"
    by simp_all
  note t = chunk_sizes [OF r, where tx = "[]"]
  from t have s:
    "list_all (\<lambda>c. chunk_type c = ARTICLE \<or> chunk_type c = SUBSECTION \<or> chunk_type c = NOTE \<longrightarrow>
                 character_count c \<le> max_chunk_size overlap_config \<or>
                 list_all (\<lambda>x. \<not> isspace x) (chunk_content c) \<or>
                 chunk_overlap overlap_config \<noteq> 0 \<and>
                 character_count c = max_chunk_size overlap_config + 1) chunks"
    by (rule conjunct1)
  from t have p:
    "list_all2 (\<lambda>c piece. chunk_type c = fst piece \<and> chunk_content c = str_strip (snd piece) \<and>
                  character_count c = int (length (str_strip (snd piece))))
       chunks (document_pieces overlap_config small_document)"
    by (rule conjunct1 [OF conjunct2])
  from r c s p u show ?thesis
    by (intro exI [of _ chunks] exI [of _ stats'] conjI)
qed

text \<open>
  C4. The source prefixes a later chunk with the tail words of the chunk before it when
  \<open>len(overlap_text) + len(chunk) <= max_chunk_size\<close>, and then joins the two with a
  space that the test did not count. With the limits 50, 100 and an overlap of 10 (one
  word), three words of 49, 49 and 51 letters are packed into the pieces of 99 and 51
  characters; the second piece receives the 49-letter prefix, since 49 + 51 = 100, and
  is emitted with 101 characters.
\<close>

theorem overlap_prefix_exceeds_max:
  "split_pieces \<lparr>min_chunk_size = 50, max_chunk_size = 100, chunk_overlap = 10\<rparr>
     (replicate 49 0x61 @ [0x20] @ replicate 49 0x62 @ [0x20] @ replicate 51 0x63) =
     [replicate 49 0x61 @ [0x20] @ replicate 49 0x62, replicate 51 0x63] \<and>
   split_long_content \<lparr>min_chunk_size = 50, max_chunk_size = 100, chunk_overlap = 10\<rparr>
     (replicate 49 0x61 @ [0x20] @ replicate 49 0x62 @ [0x20] @ replicate 51 0x63) =
     [replicate 49 0x61 @ [0x20] @ replicate 49 0x62,
      replicate 49 0x62 @ [0x20] @ replicate 51 0x63] \<and>
   int (length (replicate 49 (0x62 :: int) @ [0x20] @ replicate 51 0x63)) = 101"
  by code_simp

theorem chunk_document_positions_witness:
  "valid_document small_document \<and>
   map_sum id (\<lambda>r. map chunk_position (fst r))
     (chunk_document small_config stats0 small_document) = Inr [0, 1, 1, 1, 1, 1, 1, 7, 8] \<and>
   (\<exists>chunks stats'.
      chunk_document small_config stats0 small_document = Inr (chunks, stats') \<and>
      sorted (map chunk_position chunks) \<and>
      list_all (\<lambda>c. legal_references c \<noteq> []) chunks)"
proof -
  have v: "valid_document small_document"
    by code_simp
  have "map_sum id (\<lambda>r. map chunk_position (fst r))
          (chunk_document small_config stats0 small_document) = Inr [0, 1, 1, 1, 1, 1, 1, 7, 8]"
    by code_simp
  with chunk_document_positions [OF v, of small_config stats0] v show ?thesis by blast
qed


section \<open>Normalising twice\<close>

definition map_char :: "int \<Rightarrow> int" where
  "map_char c = fold (\<lambda>(old_char, new_char) x. if x = old_char then new_char else x) char_map c"

lemma fold_replace_char:
  "fold (\<lambda>(old_char, new_char). replace_char old_char new_char) xs t =
   map (fold (\<lambda>(old_char, new_char) x. if x = old_char then new_char else x) xs) t"
  by (induction xs arbitrary: t) (auto simp: replace_char_def)

lemma apply_char_map_map: "apply_char_map t = map map_char t"
  unfolding apply_char_map_def fold_replace_char map_char_def ..

lemma fold_no_key:
  "c \<notin> fst ` set xs \<Longrightarrow>
   fold (\<lambda>(old_char, new_char) x. if x = old_char then new_char else x) xs c = c"
  by (induction xs) auto

lemma map_char_range: "map_char c \<notin> fst ` set char_map"
proof (cases "c \<in> fst ` set char_map")
  case True
  then have "c \<in> {0x643, 0x64A, 0x621, 0x623, 0x625, 0x622, 0x629, 0x624, 0x626,
                   0x660, 0x661, 0x662, 0x663, 0x664, 0x665, 0x666, 0x667, 0x668, 0x669}"
    by (simp add: char_map_def)
  then show ?thesis
    by (elim insertE emptyE) (simp_all add: map_char_def char_map_def)
next
  case False
  then show ?thesis by (simp add: map_char_def fold_no_key)
qed

lemma map_char_idem: "map_char (map_char c) = map_char c"
  using fold_no_key [OF map_char_range, of c] by (simp add: map_char_def)

lemma apply_char_map_idem: "apply_char_map (apply_char_map t) = apply_char_map t"
  by (simp add: apply_char_map_map map_char_idem)

text \<open>
  C7, as amended. The character substitution is idempotent for every text, and
  \<open>normalize_persian_text\<close> is idempotent on every text whose normalised form NFKC leaves
  unchanged: for every function \<open>nfkc\<close>, if \<open>nfkc (normalize x) = normalize x\<close> then
  \<open>normalize (normalize x) = normalize x\<close>.
\<close>

theorem normalize_idempotent_when_stable:
  "apply_char_map (apply_char_map t) = apply_char_map t \<and>
   (nfkc (normalize_persian_text nfkc x) = normalize_persian_text nfkc x \<longrightarrow>
    normalize_persian_text nfkc (normalize_persian_text nfkc x) = normalize_persian_text nfkc x)"
  by (simp add: normalize_persian_text_def apply_char_map_idem)

theorem normalize_idempotent_when_stable_witness:
  "normalize_persian_text nfkc_fragment [0x643, 0x64A, 0x20, 0x661] = [0x6A9, 0x6CC, 0x20, 0x6F1] \<and>
   nfkc_fragment [0x6A9, 0x6CC, 0x20, 0x6F1] = [0x6A9, 0x6CC, 0x20, 0x6F1] \<and>
   normalize_persian_text nfkc_fragment [0x6A9, 0x6CC, 0x20, 0x6F1] = [0x6A9, 0x6CC, 0x20, 0x6F1]"
proof -
  have n: "normalize_persian_text nfkc_fragment [0x643, 0x64A, 0x20, 0x661] = [0x6A9, 0x6CC, 0x20, 0x6F1]"
    by code_simp
  have s: "nfkc_fragment [0x6A9, 0x6CC, 0x20, 0x6F1] = [0x6A9, 0x6CC, 0x20, 0x6F1]"
    by code_simp
  from normalize_idempotent_when_stable [of "[]" nfkc_fragment "[0x643, 0x64A, 0x20, 0x661]"] n s
  show ?thesis by simp
qed

text \<open>
  The claim as stated fails. For ALEF WITH HAMZA ABOVE followed by MADDAH ABOVE, NFKC
  changes nothing and the substitution turns the first letter into a plain ALEF; on the
  second run NFKC composes ALEF and MADDAH ABOVE into ALEF WITH MADDA ABOVE, which the
  substitution turns into a plain ALEF: the mark is gone, the text has changed.
\<close>

theorem normalize_not_idempotent:
  "normalize_persian_text nfkc_fragment [0x623, 0x653] = [0x627, 0x653] \<and>
   normalize_persian_text nfkc_fragment (normalize_persian_text nfkc_fragment [0x623, 0x653]) = [0x627]"
  by code_simp

section \<open>Spacing after cleaning\<close>

definition only_sp :: "ustr \<Rightarrow> bool" where
  "only_sp s \<longleftrightarrow> list_all (\<lambda>c. isspace c \<longrightarrow> c = 0x20) s"

lemma only_sp_Nil [simp]: "only_sp []"
  by (simp add: only_sp_def)

lemma only_sp_Cons [simp]: "only_sp (c # s) \<longleftrightarrow> (isspace c \<longrightarrow> c = 0x20) \<and> only_sp s"
  by (simp add: only_sp_def)

lemma only_sp_append [simp]: "only_sp (a @ b) \<longleftrightarrow> only_sp a \<and> only_sp b"
  by (simp add: only_sp_def)

lemma only_sp_subset: "only_sp s \<Longrightarrow> set t \<subseteq> set s \<Longrightarrow> only_sp t"
  by (auto simp: only_sp_def list_all_iff)

lemma only_sp_dropWhile: "only_sp s \<Longrightarrow> only_sp (dropWhile P s)"
  by (rule only_sp_subset) (auto dest: set_dropWhileD)

lemma sub_whitespace_only_sp: "only_sp (sub_whitespace s)"
  by (induction s rule: sub_whitespace.induct) auto

lemma dropWhile_Cons_tail:
  "dropWhile P (c # cs) = p # rest \<Longrightarrow> \<exists>pre. c # cs = pre @ p # rest"
  by (metis takeWhile_dropWhile_id)

lemma dropWhile_tail: "\<exists>pre. s = pre @ dropWhile P s"
  by (metis takeWhile_dropWhile_id)

lemma sub_spaced_only_sp:
  "(\<And>p. cls p \<Longrightarrow> only_sp (repl p)) \<Longrightarrow> only_sp s \<Longrightarrow> only_sp (sub_spaced cls repl s)"
proof (induction cls repl s rule: sub_spaced.induct)
  case (1 cls repl)
  then show ?case by simp
next
  case (2 cls repl c cs)
  have cs: "only_sp cs" using "2.prems"(2) by simp
  show ?case
  proof (cases "dropWhile isspace (c # cs)")
    case Nil
    have "only_sp (sub_spaced cls repl cs)"
      using "2.IH"(1) [OF Nil "2.prems"(1) cs] .
    moreover have "sub_spaced cls repl (c # cs) = c # sub_spaced cls repl cs"
      by (subst sub_spaced.simps) (simp only: Nil list.case)
    ultimately show ?thesis using "2.prems"(2) by simp
  next
    case (Cons p rest)
    from dropWhile_Cons_tail [OF Cons] obtain pre where "c # cs = pre @ p # rest" ..
    then have "only_sp rest" using "2.prems"(2)
      by (metis only_sp_Cons only_sp_append)
    then have r: "only_sp (dropWhile isspace rest)" by (rule only_sp_dropWhile)
    show ?thesis
    proof (cases "cls p")
      case True
      have "only_sp (sub_spaced cls repl (dropWhile isspace rest))"
        using "2.IH"(2) [OF Cons True "2.prems"(1) r] .
      moreover have "sub_spaced cls repl (c # cs) =
                     repl p @ sub_spaced cls repl (dropWhile isspace rest)"
        by (subst sub_spaced.simps) (simp only: Cons list.case True if_True)
      ultimately show ?thesis using "2.prems"(1) [OF True] by simp
    next
      case False
      have "only_sp (sub_spaced cls repl cs)"
        using "2.IH"(3) [OF Cons False "2.prems"(1) cs] .
      moreover have "sub_spaced cls repl (c # cs) = c # sub_spaced cls repl cs"
        by (subst sub_spaced.simps) (simp only: Cons list.case False if_False)
      ultimately show ?thesis using "2.prems"(2) by simp
    qed
  qed
qed

text \<open>How the output of one substitution pass starts.\<close>

lemma sub_spaced_start:
  assumes "\<And>p. cls p \<Longrightarrow> \<not> isspace p"
  shows "(sub_spaced cls repl (c # cs) = c # sub_spaced cls repl cs \<and> \<not> cls c) \<or>
         (\<exists>p rest. cls p \<and> dropWhile isspace (c # cs) = p # rest \<and>
            sub_spaced cls repl (c # cs) = repl p @ sub_spaced cls repl (dropWhile isspace rest))"
proof (cases "dropWhile isspace (c # cs)")
  case Nil
  then have "isspace c" by (auto split: if_splits)
  then have "\<not> cls c" using assms by blast
  moreover have "sub_spaced cls repl (c # cs) = c # sub_spaced cls repl cs"
    by (subst sub_spaced.simps) (simp only: Nil list.case)
  ultimately show ?thesis by blast
next
  case (Cons p rest)
  show ?thesis
  proof (cases "cls p")
    case True
    have "sub_spaced cls repl (c # cs) = repl p @ sub_spaced cls repl (dropWhile isspace rest)"
      by (subst sub_spaced.simps) (simp only: Cons list.case True if_True)
    with True Cons show ?thesis by blast
  next
    case False
    have "\<not> cls c"
    proof (cases "isspace c")
      case True
      with assms show ?thesis by blast
    next
      case F: False
      with Cons have "p = c" by simp
      with False show ?thesis by simp
    qed
    moreover have "sub_spaced cls repl (c # cs) = c # sub_spaced cls repl cs"
      by (subst sub_spaced.simps) (simp only: Cons list.case False if_False)
    ultimately show ?thesis by blast
  qed
qed

definition after_punct :: "int \<Rightarrow> int \<Rightarrow> bool" where
  "after_punct a b \<longleftrightarrow> (is_punctuation a \<longrightarrow> b = 0x20)"

definition spacing :: "int \<Rightarrow> int \<Rightarrow> bool" where
  "spacing a b \<longleftrightarrow>
     (is_punctuation a \<longrightarrow> b = 0x20) \<and> (is_parenthesis a \<longrightarrow> b = 0x20) \<and>
     (is_parenthesis b \<longrightarrow> a = 0x20)"

lemma punct_not_space: "is_punctuation p \<Longrightarrow> \<not> isspace p"
  by (auto simp: is_punctuation_def isspace_def)

lemma paren_not_space: "is_parenthesis p \<Longrightarrow> \<not> isspace p"
  by (auto simp: is_parenthesis_def isspace_def)

lemma paren_not_punct: "is_parenthesis p \<Longrightarrow> \<not> is_punctuation p"
  by (auto simp: is_parenthesis_def is_punctuation_def)

lemma space_plain [simp]: "\<not> is_punctuation 0x20" "\<not> is_parenthesis 0x20"
  by (simp_all add: is_punctuation_def is_parenthesis_def)

lemma punctuation_start:
  "(sub_spaced is_punctuation (\<lambda>p. [p, 0x20]) (c # cs) =
      c # sub_spaced is_punctuation (\<lambda>p. [p, 0x20]) cs \<and> \<not> is_punctuation c) \<or>
   (\<exists>p rest. is_punctuation p \<and> dropWhile isspace (c # cs) = p # rest \<and>
      sub_spaced is_punctuation (\<lambda>p. [p, 0x20]) (c # cs) =
      [p, 0x20] @ sub_spaced is_punctuation (\<lambda>p. [p, 0x20]) (dropWhile isspace rest))"
  by (rule sub_spaced_start) (rule punct_not_space)

lemma parenthesis_start:
  "(sub_spaced is_parenthesis (\<lambda>p. [0x20, p, 0x20]) (c # cs) =
      c # sub_spaced is_parenthesis (\<lambda>p. [0x20, p, 0x20]) cs \<and> \<not> is_parenthesis c) \<or>
   (\<exists>p rest. is_parenthesis p \<and> dropWhile isspace (c # cs) = p # rest \<and>
      sub_spaced is_parenthesis (\<lambda>p. [0x20, p, 0x20]) (c # cs) =
      [0x20, p, 0x20] @ sub_spaced is_parenthesis (\<lambda>p. [0x20, p, 0x20]) (dropWhile isspace rest))"
  by (rule sub_spaced_start) (rule paren_not_space)

lemma punctuation_pass:
  "successively after_punct (sub_spaced is_punctuation (\<lambda>p. [p, 0x20]) s)"
proof (induction s rule: length_induct)
  case (1 s)
  show ?case
  proof (cases s)
    case Nil
    then show ?thesis by simp
  next
    case (Cons c cs)
    from punctuation_start [of c cs]
    show ?thesis
    proof (elim disjE conjE exE)
      assume e: "sub_spaced is_punctuation (\<lambda>p. [p, 0x20]) (c # cs) =
                 c # sub_spaced is_punctuation (\<lambda>p. [p, 0x20]) cs"
        and n: "\<not> is_punctuation c"
      have "successively after_punct (sub_spaced is_punctuation (\<lambda>p. [p, 0x20]) cs)"
        using 1 Cons by simp
      with e n Cons show ?thesis
        by (simp add: successively_Cons after_punct_def)
    next
      fix p rest
      assume p: "is_punctuation p" and d: "dropWhile isspace (c # cs) = p # rest"
        and e: "sub_spaced is_punctuation (\<lambda>p. [p, 0x20]) (c # cs) =
                [p, 0x20] @ sub_spaced is_punctuation (\<lambda>p. [p, 0x20]) (dropWhile isspace rest)"
      have "length (p # rest) \<le> length (c # cs)"
        using d by (metis length_dropWhile_le)
      moreover have "length (dropWhile isspace rest) \<le> length rest"
        by (rule length_dropWhile_le)
      ultimately have "length (dropWhile isspace rest) < length s"
        using Cons by simp
      then have "successively after_punct
                   (sub_spaced is_punctuation (\<lambda>p. [p, 0x20]) (dropWhile isspace rest))"
        using 1 by blast
      with e Cons show ?thesis
        by (simp add: successively_Cons after_punct_def)
    qed
  qed
qed

lemma successively_suffix: "successively P (pre @ s) \<Longrightarrow> successively P s"
  by (simp add: successively_append_iff)

lemma parenthesis_pass_start:
  "s \<noteq> [] \<Longrightarrow>
   sub_spaced is_parenthesis (\<lambda>p. [0x20, p, 0x20]) s \<noteq> [] \<and>
   \<not> is_parenthesis (hd (sub_spaced is_parenthesis (\<lambda>p. [0x20, p, 0x20]) s)) \<and>
   (hd s = 0x20 \<longrightarrow> hd (sub_spaced is_parenthesis (\<lambda>p. [0x20, p, 0x20]) s) = 0x20)"
proof (cases s)
  case Nil
  then show "s \<noteq> [] \<Longrightarrow> ?thesis" by simp
next
  case (Cons c cs)
  from parenthesis_start [of c cs]
  show ?thesis unfolding Cons by auto
qed

lemma parenthesis_pass:
  "successively after_punct s \<Longrightarrow>
   successively spacing (sub_spaced is_parenthesis (\<lambda>p. [0x20, p, 0x20]) s)"
proof (induction s rule: length_induct)
  case (1 s)
  let ?f = "sub_spaced is_parenthesis (\<lambda>p. [0x20, p, 0x20])"
  show ?case
  proof (cases s)
    case Nil
    then show ?thesis by simp
  next
    case (Cons c cs)
    from parenthesis_start [of c cs]
    show ?thesis
    proof (elim disjE conjE exE)
      assume e: "?f (c # cs) = c # ?f cs" and n: "\<not> is_parenthesis c"
      have t: "successively after_punct cs"
        using "1.prems" Cons by (auto simp: successively_Cons)
      then have ih: "successively spacing (?f cs)"
        using 1 Cons by simp
      show ?thesis
      proof (cases cs)
        case Nil
        with e Cons show ?thesis by simp
      next
        case cs: (Cons d ds)
        have h: "?f cs \<noteq> []" "\<not> is_parenthesis (hd (?f cs))" "hd cs = 0x20 \<longrightarrow> hd (?f cs) = 0x20"
          using parenthesis_pass_start [of cs] cs by simp_all
        have "is_punctuation c \<longrightarrow> hd cs = 0x20"
          using "1.prems" Cons cs by (simp add: after_punct_def)
        with h n have "spacing c (hd (?f cs))"
          by (simp add: spacing_def)
        with ih h(1) e Cons show ?thesis
          by (simp add: successively_Cons)
      qed
    next
      fix p rest
      assume p: "is_parenthesis p" and d: "dropWhile isspace (c # cs) = p # rest"
        and e: "?f (c # cs) = [0x20, p, 0x20] @ ?f (dropWhile isspace rest)"
      have "length (p # rest) \<le> length (c # cs)"
        using d by (metis length_dropWhile_le)
      moreover have "length (dropWhile isspace rest) \<le> length rest"
        by (rule length_dropWhile_le)
      ultimately have l: "length (dropWhile isspace rest) < length s"
        using Cons by simp
      from dropWhile_Cons_tail [OF d] obtain pre where "c # cs = pre @ p # rest" ..
      then have "successively after_punct (p # rest)"
        using "1.prems" Cons successively_suffix by metis
      then have "successively after_punct rest"
        by (auto simp: successively_Cons)
      moreover from dropWhile_tail [of rest isspace]
      obtain pre' where "rest = pre' @ dropWhile isspace rest" ..
      ultimately have "successively after_punct (dropWhile isspace rest)"
        using successively_suffix by metis
      with l 1 have "successively spacing (?f (dropWhile isspace rest))"
        by blast
      with e Cons p show ?thesis
        by (simp add: successively_Cons spacing_def paren_not_punct)
    qed
  qed
qed

lemma str_strip_infix: "\<exists>pre post. s = pre @ str_strip s @ post"
proof -
  let ?d = "dropWhile isspace s"
  let ?t = "takeWhile isspace (rev ?d)"
  have "str_strip s @ rev ?t = rev (?t @ dropWhile isspace (rev ?d))"
    by (simp only: rev_append str_strip_def)
  also have "\<dots> = rev (rev ?d)"
    by (simp only: takeWhile_dropWhile_id)
  finally have "?d = str_strip s @ rev ?t" by simp
  moreover have "s = takeWhile isspace s @ ?d" by simp
  ultimately show ?thesis by metis
qed

lemma successively_strip: "successively P s \<Longrightarrow> successively P (str_strip s)"
proof -
  assume s: "successively P s"
  obtain pre post where "s = pre @ str_strip s @ post"
    using str_strip_infix by blast
  with s have "successively P (pre @ str_strip s @ post)" by simp
  then show ?thesis by (simp add: successively_append_iff)
qed

text \<open>
  A property of every three consecutive characters of a text, and the three properties
  of a space between its two neighbours that the passes of \<open>clean_text\<close> establish.
\<close>

fun windows :: "(int \<Rightarrow> int \<Rightarrow> int \<Rightarrow> bool) \<Rightarrow> ustr \<Rightarrow> bool" where
  "windows T (x # y # z # r) = (T x y z \<and> windows T (y # z # r))"
| "windows T [x, y] = True"
| "windows T [x] = True"
| "windows T [] = True"

definition single_spaced :: "int \<Rightarrow> int \<Rightarrow> bool" where
  "single_spaced a b \<longleftrightarrow> \<not> (a = 0x20 \<and> b = 0x20)"

definition punct_window :: "int \<Rightarrow> int \<Rightarrow> int \<Rightarrow> bool" where
  "punct_window x y z \<longleftrightarrow>
     (y = 0x20 \<longrightarrow> z \<noteq> 0x20 \<and> x \<noteq> 0x20 \<and> (is_punctuation z \<longrightarrow> is_punctuation x))"

definition space_window :: "int \<Rightarrow> int \<Rightarrow> int \<Rightarrow> bool" where
  "space_window x y z \<longleftrightarrow>
     (y = 0x20 \<longrightarrow>
        (z = 0x20 \<longrightarrow> is_parenthesis x) \<and> (x = 0x20 \<longrightarrow> is_parenthesis z) \<and>
        (is_punctuation z \<longrightarrow> is_punctuation x \<or> is_parenthesis x))"


lemma windows_tl: "windows T (x # s) \<Longrightarrow> windows T s"
  by (cases "(T, x # s)" rule: windows.cases) auto

lemma windows_suffix: "windows T (pre @ s) \<Longrightarrow> windows T s"
  by (induction pre) (auto dest: windows_tl)

lemma windows_prefix: "windows T (s @ post) \<Longrightarrow> windows T s"
  by (induction T s rule: windows.induct) auto

lemma windows_strip: "windows T s \<Longrightarrow> windows T (str_strip s)"
proof -
  assume s: "windows T s"
  obtain pre post where "s = pre @ str_strip s @ post"
    using str_strip_infix by blast
  with s have "windows T (pre @ str_strip s @ post)" by simp
  then show ?thesis by (blast dest: windows_suffix windows_prefix)
qed

lemma sub_spaced_cases:
  "(sub_spaced cls repl (c # cs) = c # sub_spaced cls repl cs \<and>
      (\<forall>p rest. dropWhile isspace (c # cs) = p # rest \<longrightarrow> \<not> cls p)) \<or>
   (\<exists>p rest. cls p \<and> dropWhile isspace (c # cs) = p # rest \<and>
      sub_spaced cls repl (c # cs) = repl p @ sub_spaced cls repl (dropWhile isspace rest))"
proof (cases "dropWhile isspace (c # cs)")
  case Nil
  have "sub_spaced cls repl (c # cs) = c # sub_spaced cls repl cs"
    by (subst sub_spaced.simps) (simp only: Nil list.case)
  with Nil show ?thesis by simp
next
  case (Cons p rest)
  show ?thesis
  proof (cases "cls p")
    case True
    have "sub_spaced cls repl (c # cs) = repl p @ sub_spaced cls repl (dropWhile isspace rest)"
      by (subst sub_spaced.simps) (simp only: Cons list.case True if_True)
    with True Cons show ?thesis by blast
  next
    case False
    have "sub_spaced cls repl (c # cs) = c # sub_spaced cls repl cs"
      by (subst sub_spaced.simps) (simp only: Cons list.case False if_False)
    with False Cons show ?thesis by simp
  qed
qed

lemma sub_whitespace_single_from:
  "(x = 0x20 \<longrightarrow> s = [] \<or> \<not> isspace (hd s)) \<Longrightarrow>
   successively single_spaced (x # sub_whitespace s)"
proof (induction s arbitrary: x rule: sub_whitespace.induct)
  case 1
  then show ?case by simp
next
  case (2 c cs)
  show ?case
  proof (cases "isspace c")
    case True
    have "dropWhile isspace cs = [] \<or> \<not> isspace (hd (dropWhile isspace cs))"
      using hd_dropWhile [of isspace cs] by blast
    then have "successively single_spaced (0x20 # sub_whitespace (dropWhile isspace cs))"
      by (intro "2.IH"(1) [OF True]) simp
    moreover have "x \<noteq> 0x20" using "2.prems" True by auto
    ultimately show ?thesis using True by (simp add: single_spaced_def)
  next
    case False
    then have "c \<noteq> 0x20" by auto
    then have "successively single_spaced (c # sub_whitespace cs)"
      by (intro "2.IH"(2) [OF False]) simp
    with False \<open>c \<noteq> 0x20\<close> show ?thesis by (simp add: single_spaced_def)
  qed
qed

lemma sub_whitespace_single: "successively single_spaced (sub_whitespace s)"
  using sub_whitespace_single_from [of "0x61" s] by (auto simp: successively_Cons)


text \<open>The pass over the punctuation marks, read with the two characters before it.\<close>

definition punct_context :: "int \<Rightarrow> int \<Rightarrow> ustr \<Rightarrow> bool" where
  "punct_context x y s \<longleftrightarrow>
     (y = 0x20 \<longrightarrow>
        x \<noteq> 0x20 \<and>
        (s \<noteq> [] \<longrightarrow> hd s \<noteq> 0x20 \<and> (is_punctuation (hd s) \<longrightarrow> is_punctuation x)))"

lemma single_spaced_suffix:
  "successively single_spaced (pre @ s) \<Longrightarrow> successively single_spaced s"
  by (rule successively_suffix)

lemma only_sp_suffix: "only_sp (pre @ s) \<Longrightarrow> only_sp s"
  by simp

lemma only_sp_space: "only_sp s \<Longrightarrow> c \<in> set s \<Longrightarrow> isspace c \<longleftrightarrow> c = 0x20"
  by (auto simp: only_sp_def list_all_iff)

lemma punctuation_windows:
  "only_sp s \<Longrightarrow> successively single_spaced s \<Longrightarrow> punct_context x y s \<Longrightarrow>
   windows punct_window (x # y # sub_spaced is_punctuation (\<lambda>p. [p, 0x20]) s)"
proof (induction s arbitrary: x y rule: length_induct)
  case (1 s)
  let ?f = "sub_spaced is_punctuation (\<lambda>p. [p, 0x20])"
  show ?case
  proof (cases s)
    case Nil
    then show ?thesis by simp
  next
    case (Cons c cs)
    have sp: "isspace c \<longleftrightarrow> c = 0x20"
      using "1.prems"(1) Cons by (auto simp: only_sp_def)
    from sub_spaced_cases [of is_punctuation "\<lambda>p. [p, 0x20]" c cs]
    show ?thesis
    proof (elim disjE conjE exE)
      assume e: "?f (c # cs) = c # ?f cs"
        and n: "\<forall>p rest. dropWhile isspace (c # cs) = p # rest \<longrightarrow> \<not> is_punctuation p"
      have inv: "only_sp cs" "successively single_spaced cs"
        using "1.prems" Cons by (auto simp: successively_Cons)
      have w: "punct_window x y c"
        using "1.prems"(3) Cons by (simp add: punct_window_def punct_context_def)
      have ctx: "punct_context y c cs"
      proof (cases cs)
        case Nil
        with "1.prems"(3) Cons show ?thesis by (auto simp: punct_context_def)
      next
        case cs: (Cons q r)
        have q: "isspace q \<longleftrightarrow> q = 0x20"
          using "1.prems"(1) Cons cs by (auto simp: only_sp_def)
        have "c = 0x20 \<longrightarrow> q \<noteq> 0x20"
          using "1.prems"(2) Cons cs by (simp add: single_spaced_def)
        moreover have "c = 0x20 \<longrightarrow> \<not> is_punctuation q"
        proof
          assume c: "c = 0x20"
          with \<open>c = 0x20 \<longrightarrow> q \<noteq> 0x20\<close> q have "dropWhile isspace (c # cs) = q # r"
            using cs by simp
          with n show "\<not> is_punctuation q" by blast
        qed
        moreover have "c = 0x20 \<longrightarrow> y \<noteq> 0x20"
          using "1.prems"(3) Cons by (auto simp: punct_context_def)
        ultimately show ?thesis using cs by (simp add: punct_context_def)
      qed
      have "windows punct_window (y # c # ?f cs)"
        using 1 Cons inv ctx by simp
      with w e Cons show ?thesis by simp
    next
      fix p rest
      assume p: "is_punctuation p" and d: "dropWhile isspace (c # cs) = p # rest"
        and e: "?f (c # cs) = [p, 0x20] @ ?f (dropWhile isspace rest)"
      let ?s' = "dropWhile isspace rest"
      have "length (p # rest) \<le> length (c # cs)"
        using d by (metis length_dropWhile_le)
      moreover have "length ?s' \<le> length rest"
        by (rule length_dropWhile_le)
      ultimately have l: "length ?s' < length s"
        using Cons by simp
      from dropWhile_Cons_tail [OF d] obtain pre where pre: "c # cs = pre @ p # rest" ..
      from dropWhile_tail [of rest isspace] obtain pre' where pre': "rest = pre' @ ?s'" ..
      have "c # cs = (pre @ p # pre') @ ?s'"
        using pre pre' by simp
      then have inv: "only_sp ?s'" "successively single_spaced ?s'"
        using "1.prems"(1,2) Cons only_sp_suffix single_spaced_suffix by metis+
      have ps: "p \<noteq> 0x20" using p by auto
      have h: "?s' \<noteq> [] \<longrightarrow> hd ?s' \<noteq> 0x20"
      proof
        assume "?s' \<noteq> []"
        then have "\<not> isspace (hd ?s')" by (rule hd_dropWhile)
        then show "hd ?s' \<noteq> 0x20" by (metis isspace_0x20)
      qed
      have ctx: "punct_context p 0x20 ?s'"
        using ps h p by (simp add: punct_context_def)
      have ih: "windows punct_window (p # 0x20 # ?f ?s')"
        using 1 l inv ctx by blast
      have w1: "punct_window y p 0x20"
        using ps by (simp add: punct_window_def)
      have w2: "punct_window x y p"
      proof -
        have "is_punctuation x" if "y = 0x20"
        proof -
          from that "1.prems"(3) Cons have "c \<noteq> 0x20" "is_punctuation c \<longrightarrow> is_punctuation x"
            by (simp_all add: punct_context_def)
          with sp d have "p = c" by simp
          with p \<open>is_punctuation c \<longrightarrow> is_punctuation x\<close> show ?thesis by simp
        qed
        moreover have "y = 0x20 \<longrightarrow> x \<noteq> 0x20"
          using "1.prems"(3) by (simp add: punct_context_def)
        ultimately show ?thesis using ps by (auto simp: punct_window_def)
      qed
      from w1 w2 ih e Cons show ?thesis by simp
    qed
  qed
qed

text \<open>The pass over the parentheses, read with the two characters before it.\<close>

definition paren_context :: "int \<Rightarrow> int \<Rightarrow> ustr \<Rightarrow> bool" where
  "paren_context x y s \<longleftrightarrow>
     \<not> (x = 0x20 \<and> y = 0x20) \<and> \<not> is_parenthesis y \<and>
     (y = 0x20 \<longrightarrow> s \<noteq> [] \<longrightarrow>
        hd s \<noteq> 0x20 \<and> (is_punctuation (hd s) \<longrightarrow> is_punctuation x \<or> is_parenthesis x) \<and>
        (is_parenthesis (hd s) \<longrightarrow> is_parenthesis x)) \<and>
     (\<forall>q r. s = 0x20 # q # r \<longrightarrow> is_punctuation q \<longrightarrow> is_punctuation y)"

lemma windows_single: "windows punct_window (x # s) \<Longrightarrow> successively single_spaced s"
proof (induction s arbitrary: x)
  case Nil
  then show ?case by simp
next
  case (Cons y s)
  show ?case
  proof (cases s)
    case Nil
    then show ?thesis by simp
  next
    case s: (Cons z r)
    from Cons.prems s have w: "punct_window x y z" and t: "windows punct_window (y # s)"
      by simp_all
    from t have "successively single_spaced s" by (rule Cons.IH)
    moreover from w have "single_spaced y z"
      by (simp add: punct_window_def single_spaced_def)
    ultimately show ?thesis using s by (simp add: successively_Cons)
  qed
qed

lemma parenthesis_windows:
  "only_sp s \<Longrightarrow> successively single_spaced s \<Longrightarrow> windows punct_window s \<Longrightarrow>
   paren_context x y s \<Longrightarrow>
   windows space_window (x # y # sub_spaced is_parenthesis (\<lambda>p. [0x20, p, 0x20]) s)"
proof (induction s arbitrary: x y rule: length_induct)
  case (1 s)
  let ?f = "sub_spaced is_parenthesis (\<lambda>p. [0x20, p, 0x20])"
  show ?case
  proof (cases s)
    case Nil
    then show ?thesis by simp
  next
    case (Cons c cs)
    have sp: "isspace c \<longleftrightarrow> c = 0x20"
      using "1.prems"(1) Cons by (auto simp: only_sp_def)
    from sub_spaced_cases [of is_parenthesis "\<lambda>p. [0x20, p, 0x20]" c cs]
    show ?thesis
    proof (elim disjE conjE exE)
      assume e: "?f (c # cs) = c # ?f cs"
        and n: "\<forall>p rest. dropWhile isspace (c # cs) = p # rest \<longrightarrow> \<not> is_parenthesis p"
      have inv: "only_sp cs" "successively single_spaced cs" "windows punct_window cs"
        using "1.prems" Cons by (auto simp: successively_Cons dest: windows_tl)
      have nc: "\<not> is_parenthesis c"
      proof (cases "c = 0x20")
        case True
        then show ?thesis by simp
      next
        case False
        with sp have "dropWhile isspace (c # cs) = c # cs" by simp
        with n show ?thesis by blast
      qed
      have w: "space_window x y c"
        using "1.prems"(4) Cons by (auto simp: space_window_def paren_context_def)
      have ctx: "paren_context y c cs"
      proof (cases cs)
        case Nil
        with "1.prems"(4) Cons nc show ?thesis by (auto simp: paren_context_def)
      next
        case cs: (Cons q r)
        have q: "isspace q \<longleftrightarrow> q = 0x20"
          using "1.prems"(1) Cons cs by (auto simp: only_sp_def)
        have a: "c = 0x20 \<longrightarrow> q \<noteq> 0x20"
          using "1.prems"(2) Cons cs by (simp add: single_spaced_def)
        have b: "c = 0x20 \<longrightarrow> \<not> is_parenthesis q"
        proof
          assume "c = 0x20"
          with a q have "dropWhile isspace (c # cs) = q # r"
            using cs by simp
          with n show "\<not> is_parenthesis q" by blast
        qed
        have c0: "c = 0x20 \<longrightarrow> y \<noteq> 0x20"
          using "1.prems"(4) Cons by (auto simp: paren_context_def)
        have c2: "c = 0x20 \<longrightarrow> is_punctuation q \<longrightarrow> is_punctuation y"
          using "1.prems"(4) Cons cs by (simp add: paren_context_def)
        have c3: "\<forall>q' r'. cs = 0x20 # q' # r' \<longrightarrow> is_punctuation q' \<longrightarrow> is_punctuation c"
          using "1.prems"(3) Cons by (auto simp: punct_window_def)
        from a b c0 c2 c3 nc show ?thesis
          using cs by (auto simp: paren_context_def)
      qed
      have "windows space_window (y # c # ?f cs)"
        using 1 Cons inv ctx by simp
      with w e Cons show ?thesis by simp
    next
      fix p rest
      assume p: "is_parenthesis p" and d: "dropWhile isspace (c # cs) = p # rest"
        and e: "?f (c # cs) = [0x20, p, 0x20] @ ?f (dropWhile isspace rest)"
      let ?s' = "dropWhile isspace rest"
      have "length (p # rest) \<le> length (c # cs)"
        using d by (metis length_dropWhile_le)
      moreover have "length ?s' \<le> length rest"
        by (rule length_dropWhile_le)
      ultimately have l: "length ?s' < length s"
        using Cons by simp
      from dropWhile_Cons_tail [OF d] obtain pre where pre: "c # cs = pre @ p # rest" ..
      from dropWhile_tail [of rest isspace] obtain pre' where pre': "rest = pre' @ ?s'" ..
      have "c # cs = (pre @ p # pre') @ ?s'"
        using pre pre' by simp
      then have inv: "only_sp ?s'" "successively single_spaced ?s'" "windows punct_window ?s'"
        using "1.prems"(1,2,3) Cons only_sp_suffix single_spaced_suffix windows_suffix by metis+
      have ps: "p \<noteq> 0x20" using p by auto
      have h: "?s' \<noteq> [] \<longrightarrow> hd ?s' \<noteq> 0x20"
      proof
        assume "?s' \<noteq> []"
        then have "\<not> isspace (hd ?s')" by (rule hd_dropWhile)
        then show "hd ?s' \<noteq> 0x20" by (metis isspace_0x20)
      qed
      have h2: "?s' \<noteq> 0x20 # q # r" for q r
      proof
        assume "?s' = 0x20 # q # r"
        with h show False by (simp del: dropWhile_eq_Nil_conv)
      qed
      have ctx: "paren_context p 0x20 ?s'"
        using ps h h2 p by (simp add: paren_context_def)
      have ih: "windows space_window (p # 0x20 # ?f ?s')"
        using 1 l inv ctx by blast
      have w3: "space_window 0x20 p 0x20"
        using ps by (simp add: space_window_def)
      have w2: "space_window y 0x20 p"
        using p ps by (simp add: space_window_def paren_not_punct)
      have w1: "space_window x y 0x20"
      proof -
        have "is_parenthesis x \<and> x \<noteq> 0x20" if "y = 0x20"
        proof -
          from that "1.prems"(4) Cons have "c \<noteq> 0x20" "is_parenthesis c \<longrightarrow> is_parenthesis x"
            "x \<noteq> 0x20"
            by (simp_all add: paren_context_def)
          with sp d have "p = c" by simp
          with p \<open>is_parenthesis c \<longrightarrow> is_parenthesis x\<close> \<open>x \<noteq> 0x20\<close> show ?thesis by simp
        qed
        then show ?thesis by (auto simp: space_window_def)
      qed
      from w1 w2 w3 ih e Cons show ?thesis by simp
    qed
  qed
qed

lemma clean_text_windows: "windows space_window (clean_text nfkc s)"
proof (cases "s = []")
  case True
  then show ?thesis by (simp add: clean_text_def)
next
  case False
  let ?w = "sub_whitespace (normalize_persian_text nfkc s)"
  let ?a = "sub_spaced is_punctuation (\<lambda>p. [p, 0x20]) ?w"
  let ?b = "sub_spaced is_parenthesis (\<lambda>p. [0x20, p, 0x20]) ?a"
  have c: "clean_text nfkc s = str_strip ?b"
    using False by (simp add: clean_text_def)
  have w: "only_sp ?w" "successively single_spaced ?w"
    by (rule sub_whitespace_only_sp) (rule sub_whitespace_single)
  have "windows punct_window (0x61 # 0x61 # ?a)"
    using w by (rule punctuation_windows) (simp add: punct_context_def)
  then have a1: "windows punct_window (0x61 # ?a)"
    by (rule windows_tl)
  then have a2: "windows punct_window ?a" "successively single_spaced ?a"
    by (rule windows_tl, rule windows_single)
  have a3: "only_sp ?a"
    using w(1) by (rule sub_spaced_only_sp [rotated]) (simp add: punct_not_space)
  have a4: "paren_context 0x61 0x61 ?a"
    using a1 by (auto simp: paren_context_def punct_window_def is_parenthesis_def
        is_punctuation_def)
  have "windows space_window (0x61 # 0x61 # ?b)"
    using a3 a2(2) a2(1) a4 by (rule parenthesis_windows)
  then have "windows space_window ?b"
    by (blast dest: windows_tl)
  then show ?thesis
    unfolding c by (rule windows_strip)
qed

text \<open>
  C8, as amended. For every input, the output of \<open>clean_text\<close> has no leading or trailing
  whitespace, and its only whitespace character is the space U+0020. Every punctuation
  mark that is not the last character is directly followed by a space; every parenthesis
  that is not the last character is directly followed by a space, and every parenthesis
  that is not the first character is directly preceded by one. Two adjacent spaces occur
  only directly between two parentheses, the space behind the first and the space in
  front of the second: there is no run of three, and a mark is followed by exactly one
  space. A space directly in front of a punctuation mark occurs only directly behind
  another mark or a parenthesis.
\<close>

theorem clean_text_spacing:
  "(clean_text nfkc s = [] \<or>
      \<not> isspace (hd (clean_text nfkc s)) \<and> \<not> isspace (last (clean_text nfkc s))) \<and>
   list_all (\<lambda>c. isspace c \<longrightarrow> c = 0x20) (clean_text nfkc s) \<and>
   successively
     (\<lambda>a b. (is_punctuation a \<longrightarrow> b = 0x20) \<and> (is_parenthesis a \<longrightarrow> b = 0x20) \<and>
            (is_parenthesis b \<longrightarrow> a = 0x20))
     (clean_text nfkc s) \<and>
   windows
     (\<lambda>x y z. y = 0x20 \<longrightarrow>
        (z = 0x20 \<longrightarrow> is_parenthesis x) \<and> (x = 0x20 \<longrightarrow> is_parenthesis z) \<and>
        (is_punctuation z \<longrightarrow> is_punctuation x \<or> is_parenthesis x))
     (clean_text nfkc s)"
proof -
  have w: "windows
     (\<lambda>x y z. y = 0x20 \<longrightarrow>
        (z = 0x20 \<longrightarrow> is_parenthesis x) \<and> (x = 0x20 \<longrightarrow> is_parenthesis z) \<and>
        (is_punctuation z \<longrightarrow> is_punctuation x \<or> is_parenthesis x))
     (clean_text nfkc s)"
    using clean_text_windows [of nfkc s] by (simp add: space_window_def [abs_def])
  show ?thesis
  proof (cases "s = []")
    case True
    then show ?thesis by (simp add: clean_text_def)
  next
    case False
    let ?w = "sub_whitespace (normalize_persian_text nfkc s)"
    let ?a = "sub_spaced is_punctuation (\<lambda>p. [p, 0x20]) ?w"
    let ?b = "sub_spaced is_parenthesis (\<lambda>p. [0x20, p, 0x20]) ?a"
    have c: "clean_text nfkc s = str_strip ?b"
      using False by (simp add: clean_text_def)
    have "only_sp ?w"
      by (rule sub_whitespace_only_sp)
    then have "only_sp ?a"
      by (rule sub_spaced_only_sp [rotated]) (simp add: punct_not_space)
    then have "only_sp ?b"
      by (rule sub_spaced_only_sp [rotated]) (simp add: paren_not_space)
    then have o: "only_sp (str_strip ?b)"
      by (rule only_sp_subset) (rule str_strip_subset)
    have "successively spacing ?b"
      by (intro parenthesis_pass punctuation_pass)
    then have "successively spacing (str_strip ?b)"
      by (rule successively_strip)
    then have sp: "successively
        (\<lambda>a b. (is_punctuation a \<longrightarrow> b = 0x20) \<and> (is_parenthesis a \<longrightarrow> b = 0x20) \<and>
               (is_parenthesis b \<longrightarrow> a = 0x20)) (str_strip ?b)"
      by (simp add: spacing_def [abs_def])
    have e: "str_strip ?b = [] \<or>
             \<not> isspace (hd (str_strip ?b)) \<and> \<not> isspace (last (str_strip ?b))"
      using str_strip_ends [of ?b] by blast
    have l: "list_all (\<lambda>c. isspace c \<longrightarrow> c = 0x20) (str_strip ?b)"
      using o by (simp add: only_sp_def)
    from e l sp w [unfolded c] show ?thesis
      unfolding c by (intro conjI)
  qed
qed

theorem clean_text_spacing_witness:
  "clean_text nfkc_fragment (ascii ''  (a)()  .. b ; c.  '') = ascii ''( a )  (  ) . . b ; c.'' \<and>
   \<not> isspace (hd (ascii ''( a )  (  ) . . b ; c.'')) \<and>
   \<not> isspace (last (ascii ''( a )  (  ) . . b ; c.'')) \<and>
   successively
     (\<lambda>a b. (is_punctuation a \<longrightarrow> b = 0x20) \<and> (is_parenthesis a \<longrightarrow> b = 0x20) \<and>
            (is_parenthesis b \<longrightarrow> a = 0x20))
     (ascii ''( a )  (  ) . . b ; c.'') \<and>
   windows
     (\<lambda>x y z. y = 0x20 \<longrightarrow>
        (z = 0x20 \<longrightarrow> is_parenthesis x) \<and> (x = 0x20 \<longrightarrow> is_parenthesis z) \<and>
        (is_punctuation z \<longrightarrow> is_punctuation x \<or> is_parenthesis x))
     (ascii ''( a )  (  ) . . b ; c.'')"
proof -
  have e: "clean_text nfkc_fragment (ascii ''  (a)()  .. b ; c.  '') =
           ascii ''( a )  (  ) . . b ; c.''"
    by code_simp
  have n: "ascii ''( a )  (  ) . . b ; c.'' \<noteq> []"
    by (simp add: ascii_def)
  from clean_text_spacing [of nfkc_fragment "ascii ''  (a)()  .. b ; c.  ''"] n show ?thesis
    unfolding e by simp
qed

text \<open>
  The claim as stated fails in each of its parts but the trimming: two adjacent
  parentheses are separated by two spaces; the second of two punctuation marks is
  preceded by a space and, being the last character, followed by none; a parenthesis at
  either end of the text has no space on its outer side; a mark behind an opening or a
  closing parenthesis is preceded by a space.
\<close>

theorem clean_text_breaks_spacing:
  "clean_text nfkc_fragment (ascii ''a()b'') = ascii ''a (  ) b'' \<and>
   clean_text nfkc_fragment (ascii ''a..'') = ascii ''a. .'' \<and>
   clean_text nfkc_fragment (ascii ''(a)'') = ascii ''( a )'' \<and>
   clean_text nfkc_fragment (ascii ''(.'') = ascii ''( .'' \<and>
   clean_text nfkc_fragment (ascii '').'') = ascii '') .''"
  by code_simp


section \<open>The quality gate of the splitter\<close>

definition good_law :: "LawMetadata \<Rightarrow> bool" where
  "good_law law \<longleftrightarrow> quality_score law \<ge> 0.4 \<and> 50 \<le> length (raw_content law)"

lemma process_individual_law_length:
  "process_individual_law L law_text i = Some metadata \<Longrightarrow> 50 \<le> length (raw_content metadata)"
  by (auto simp: process_individual_law_def Let_def split: if_splits prod.splits)

definition candidates :: "ustr \<Rightarrow> (nat \<times> nat) list \<Rightarrow> nat" where
  "candidates full_text boundaries =
     length (filter (\<lambda>(start, end). str_strip (slice start end full_text) \<noteq> []) boundaries)"

lemma split_loop_gate:
  "split_loop L full_text i boundaries valid st = (valid', st') \<Longrightarrow> list_all good_law valid \<Longrightarrow>
   list_all good_law valid' \<and>
   valid_laws st' = valid_laws st + int (length valid') - int (length valid) \<and>
   invalid_laws st' =
     invalid_laws st + int (candidates full_text boundaries) - (int (length valid') - int (length valid))"
proof (induction boundaries arbitrary: i valid st)
  case Nil
  then show ?case by (simp add: candidates_def)
next
  case (Cons b boundaries)
  obtain start "end" where b: "b = (start, end)" by (cases b)
  let ?law_text = "str_strip (slice start end full_text)"
  show ?case
  proof (cases "?law_text = []")
    case True
    with Cons.prems b have
      "split_loop L full_text (Suc i) boundaries valid st = (valid', st')"
      by simp
    from Cons.IH [OF this Cons.prems(2)] True b show ?thesis
      by (simp add: candidates_def)
  next
    case False
    show ?thesis
    proof (cases "process_individual_law L ?law_text i")
      case None
      with Cons.prems b False have
        "split_loop L full_text (Suc i) boundaries valid
           (st\<lparr>invalid_laws := invalid_laws st + 1\<rparr>) = (valid', st')"
        by simp
      from Cons.IH [OF this Cons.prems(2)] False b show ?thesis
        by (simp add: candidates_def)
    next
      case (Some metadata)
      show ?thesis
      proof (cases "quality_score metadata \<ge> 0.4")
        case True
        with Cons.prems b False Some have r:
          "split_loop L full_text (Suc i) boundaries (valid @ [metadata])
             (st\<lparr>valid_laws := valid_laws st + 1\<rparr>) = (valid', st')"
          by simp
        have "good_law metadata"
          using True process_individual_law_length [OF Some]
          by (simp add: good_law_def)
        then have "list_all good_law (valid @ [metadata])"
          using Cons.prems(2) by simp
        from Cons.IH [OF r this] False b show ?thesis
          by (simp add: candidates_def)
      next
        case F: False
        with Cons.prems b False Some have
          "split_loop L full_text (Suc i) boundaries valid
             (st\<lparr>invalid_laws := invalid_laws st + 1\<rparr>) = (valid', st')"
          by simp
        from Cons.IH [OF this Cons.prems(2)] False b show ?thesis
          by (simp add: candidates_def)
      qed
    qed
  qed
qed

text \<open>
  C6. For every sequence of paragraphs, every law record that \<open>split_document\<close> keeps has
  a quality score of at least 0.4 and a cleaned text of at least 50 characters. The
  counter of valid laws grows by the number of kept records, and every other non-empty
  section, too short or scoring below 0.4, is counted as invalid and not emitted.
\<close>

theorem split_document_quality_gate:
  "list_all (\<lambda>law. quality_score law \<ge> 0.4 \<and> 50 \<le> length (raw_content law))
     (result_laws (split_document L st (Some paragraphs))) \<and>
   valid_laws (result_stats (split_document L st (Some paragraphs))) =
     valid_laws st + int (length (result_laws (split_document L st (Some paragraphs)))) \<and>
   invalid_laws (result_stats (split_document L st (Some paragraphs))) =
     invalid_laws st +
     int (length (filter (\<lambda>(start, end). str_strip (slice start end (read_docx_file paragraphs)) \<noteq> [])
                    (identify_law_boundaries (read_docx_file paragraphs)))) -
     int (length (result_laws (split_document L st (Some paragraphs))))"
proof -
  let ?text = "read_docx_file paragraphs"
  let ?bs = "identify_law_boundaries ?text"
  obtain valid st' where
    l: "split_loop L ?text 0 ?bs [] (st\<lparr>total_laws_found := int (length ?bs)\<rparr>) = (valid, st')"
    by (cases "split_loop L ?text 0 ?bs [] (st\<lparr>total_laws_found := int (length ?bs)\<rparr>)")
  then have r: "split_document L st (Some paragraphs) =
      \<lparr>result_success = True, result_stats = st', result_laws = valid\<rparr>"
    by (simp add: split_document_def Let_def)
  from split_loop_gate [OF l] show ?thesis
    unfolding r by (simp add: good_law_def [abs_def] candidates_def)
qed

text \<open>
  C9. An empty paragraph sequence gives a successful result with zero law records, and
  the \<open>success_rate\<close> of a report with \<open>total_items = 0\<close> is 0.
\<close>

theorem empty_input_no_laws:
  "split_document L st (Some []) =
     \<lparr>result_success = True, result_stats = st\<lparr>total_laws_found := 0\<rparr>, result_laws = []\<rparr> \<and>
   (total_items r = 0 \<longrightarrow> success_rate r = 0)"
  by (simp add: split_document_def read_docx_file_def identify_law_boundaries_def success_rate_def)

definition ascii_library :: library where
  "ascii_library =
     \<lparr>nfkc_of = nfkc_fragment,
      word_char = (\<lambda>c. (0x30 \<le> c \<and> c \<le> 0x39) \<or> (0x41 \<le> c \<and> c \<le> 0x5A) \<or> c = 0x5F \<or>
                        (0x61 \<le> c \<and> c \<le> 0x7A)),
      search_law_title = (\<lambda>s. None), search_date = (\<lambda>s. None)\<rparr>"

definition two_sections :: "ustr list" where
  "two_sections =
     [ascii ''abc'', ascii ''************'',
      ascii ''this text has more than fifty characters in its body, yes'', ascii ''  '']"

theorem split_document_quality_gate_witness:
  "result_stats (split_document ascii_library
      \<lparr>total_laws_found = 0, valid_laws = 0, invalid_laws = 0\<rparr> (Some two_sections)) =
     \<lparr>total_laws_found = 2, valid_laws = 1, invalid_laws = 1\<rparr> \<and>
   map law_id (result_laws (split_document ascii_library
      \<lparr>total_laws_found = 0, valid_laws = 0, invalid_laws = 0\<rparr> (Some two_sections))) =
     [ascii ''law_002''] \<and>
   list_all (\<lambda>law. quality_score law \<ge> 0.4 \<and> 50 \<le> length (raw_content law))
     (result_laws (split_document ascii_library
        \<lparr>total_laws_found = 0, valid_laws = 0, invalid_laws = 0\<rparr> (Some two_sections)))"
proof -
  have "result_stats (split_document ascii_library
      \<lparr>total_laws_found = 0, valid_laws = 0, invalid_laws = 0\<rparr> (Some two_sections)) =
     \<lparr>total_laws_found = 2, valid_laws = 1, invalid_laws = 1\<rparr>"
    by code_simp
  moreover have "map law_id (result_laws (split_document ascii_library
      \<lparr>total_laws_found = 0, valid_laws = 0, invalid_laws = 0\<rparr> (Some two_sections))) =
     [ascii ''law_002'']"
    by code_simp
  ultimately show ?thesis
    using split_document_quality_gate [of ascii_library
        "\<lparr>total_laws_found = 0, valid_laws = 0, invalid_laws = 0\<rparr>" two_sections]
    by simp
qed

theorem empty_input_no_laws_witness:
  "split_document ascii_library \<lparr>total_laws_found = 7, valid_laws = 5, invalid_laws = 2\<rparr> (Some []) =
     \<lparr>result_success = True,
      result_stats = \<lparr>total_laws_found = 0, valid_laws = 5, invalid_laws = 2\<rparr>,
      result_laws = []\<rparr> \<and>
   total_items \<lparr>total_items = 0, processed_items = 0, failed_items = 0\<rparr> = 0 \<and>
   success_rate \<lparr>total_items = 0, processed_items = 0, failed_items = 0\<rparr> = 0"
  using empty_input_no_laws [of ascii_library
      "\<lparr>total_laws_found = 7, valid_laws = 5, invalid_laws = 2\<rparr>"
      "\<lparr>total_items = 0, processed_items = 0, failed_items = 0\<rparr>"]
  by simp

section \<open>Boundaries partition the text\<close>

text \<open>
  A list of spans is contiguous from \<open>a\<close> to \<open>b\<close> when the first span starts at \<open>a\<close>, every
  span ends where the next one starts, and the last one ends at \<open>b\<close>.
\<close>

fun contiguous :: "nat \<Rightarrow> nat \<Rightarrow> (nat \<times> nat) list \<Rightarrow> bool" where
  "contiguous a b [] = (a = b)"
| "contiguous a b ((start, end) # rest) = (start = a \<and> start \<le> end \<and> contiguous end b rest)"

text \<open>The (start, end) part of the tuples that the parser returns.\<close>

definition spans_of :: "(ustr \<times> ustr \<times> nat \<times> nat) list \<Rightarrow> (nat \<times> nat) list" where
  "spans_of bs = map (\<lambda>(number, title, start, end). (start, end)) bs"

declare finditer_from.simps [simp del]

lemma contiguous_append:
  "contiguous a b xs \<Longrightarrow> contiguous b c ys \<Longrightarrow> contiguous a c (xs @ ys)"
  by (induction xs arbitrary: a) auto

lemma separator_ends_bounds:
  "e \<in> set (separator_ends pos s) \<Longrightarrow> pos < e \<and> e \<le> pos + length s"
proof (induction pos s rule: separator_ends.induct)
  case (1 pos)
  then show ?case by simp
next
  case (2 pos c cs)
  let ?run = "length (takeWhile (\<lambda>x. x = 0x2A) (c # cs))"
  have r: "?run \<le> length (c # cs)" by (rule length_takeWhile_le)
  show ?case
  proof (cases "10 \<le> ?run")
    case True
    with "2.prems" have "e = pos + ?run \<or> e \<in> set (separator_ends (pos + ?run) (drop ?run (c # cs)))"
      by (simp add: Let_def)
    then show ?thesis
    proof
      assume "e = pos + ?run"
      with True r show ?thesis unfolding length_Cons by linarith
    next
      assume "e \<in> set (separator_ends (pos + ?run) (drop ?run (c # cs)))"
      from "2.IH"(1) [OF refl True this] True r show ?thesis by simp
    qed
  next
    case False
    with "2.prems" have "e \<in> set (separator_ends (pos + 1) cs)"
      by (simp add: Let_def)
    from "2.IH"(2) [OF refl False this] show ?thesis by simp
  qed
qed

lemma separator_ends_increasing: "sorted_wrt (<) (separator_ends pos s)"
proof (induction pos s rule: separator_ends.induct)
  case (1 pos)
  then show ?case by simp
next
  case (2 pos c cs)
  let ?run = "length (takeWhile (\<lambda>x. x = 0x2A) (c # cs))"
  show ?case
  proof (cases "10 \<le> ?run")
    case True
    have "sorted_wrt (<) (separator_ends (pos + ?run) (drop ?run (c # cs)))"
      using "2.IH"(1) [OF refl True] .
    moreover have "\<forall>e\<in>set (separator_ends (pos + ?run) (drop ?run (c # cs))). pos + ?run < e"
      using separator_ends_bounds by blast
    ultimately show ?thesis using True by (simp add: Let_def)
  next
    case False
    with "2.IH"(2) [OF refl False] show ?thesis by (simp add: Let_def)
  qed
qed

lemma law_boundaries_loop_contiguous:
  "law_boundaries_loop seps start bs = (bs', start') \<Longrightarrow> sorted_wrt (<) (start # seps) \<Longrightarrow>
   contiguous a start bs \<Longrightarrow> list_all (\<lambda>(s, e). s < e) bs \<Longrightarrow>
   contiguous a start' bs' \<and> list_all (\<lambda>(s, e). s < e) bs' \<and> start' \<in> set (start # seps)"
proof (induction seps arbitrary: start bs)
  case Nil
  then show ?case by simp
next
  case (Cons sep seps)
  have lt: "start < sep" using Cons.prems(2) by simp
  with Cons.prems(1) have l:
    "law_boundaries_loop seps sep (bs @ [(start, sep)]) = (bs', start')"
    by simp
  have s: "sorted_wrt (<) (sep # seps)" using Cons.prems(2) by simp
  have c: "contiguous a sep (bs @ [(start, sep)])"
    using Cons.prems(3) lt by (intro contiguous_append) auto
  have g: "list_all (\<lambda>(s, e). s < e) (bs @ [(start, sep)])"
    using Cons.prems(4) lt by simp
  from Cons.IH [OF l s c g] show ?case by auto
qed

lemma identify_law_boundaries_contiguous:
  "contiguous 0 (length tx) (identify_law_boundaries tx) \<and>
   list_all (\<lambda>(s, e). s < e) (identify_law_boundaries tx)"
proof -
  obtain bs start where l: "law_boundaries_loop (separator_ends 0 tx) 0 [] = (bs, start)"
    by (cases "law_boundaries_loop (separator_ends 0 tx) 0 []")
  have "sorted_wrt (<) (0 # separator_ends 0 tx)"
    using separator_ends_increasing [of 0 tx] separator_ends_bounds [of _ 0 tx] by auto
  from law_boundaries_loop_contiguous [OF l this, of 0] have
    c: "contiguous 0 start bs" and g: "list_all (\<lambda>(s, e). s < e) bs"
    and m: "start \<in> set (0 # separator_ends 0 tx)"
    by auto
  have le: "start \<le> length tx"
    using m separator_ends_bounds [of start 0 tx] by auto
  show ?thesis
  proof (cases "start < length tx")
    case True
    have "contiguous 0 (length tx) (bs @ [(start, length tx)])"
      using c True by (intro contiguous_append) auto
    with l g True show ?thesis by (simp add: identify_law_boundaries_def)
  next
    case False
    with le have "start = length tx" by simp
    with l c g show ?thesis by (simp add: identify_law_boundaries_def)
  qed
qed

lemma finditer_from_starts:
  "m \<in> set (finditer_from pt tx i) \<Longrightarrow> i \<le> match_start m \<and> match_start m < length tx"
proof (induction pt tx i rule: finditer_from.induct)
  case (1 pt tx i)
  show ?case
  proof (cases "length tx \<le> i")
    case True
    with "1.prems" show ?thesis by (subst (asm) finditer_from.simps) simp
  next
    case False
    show ?thesis
    proof (cases "if line_start tx i then pt (drop i tx) else None")
      case None
      with "1.prems" False have "m \<in> set (finditer_from pt tx (i + 1))"
        by (subst (asm) finditer_from.simps) simp
      from "1.IH"(1) [OF False None this] show ?thesis by simp
    next
      case (Some t)
      obtain g1 g2 n where t: "t = (g1, g2, n)" by (cases t)
      with "1.prems" False Some have
        "m = \<lparr>match_start = i, match_end = i + n, group1 = g1, group2 = g2\<rparr> \<or>
         m \<in> set (finditer_from pt tx (i + max n 1))"
        by (subst (asm) finditer_from.simps) simp
      then show ?thesis
      proof
        assume "m = \<lparr>match_start = i, match_end = i + n, group1 = g1, group2 = g2\<rparr>"
        with False show ?thesis by simp
      next
        assume "m \<in> set (finditer_from pt tx (i + max n 1))"
        from "1.IH"(2) [OF False Some [unfolded t] refl refl this] show ?thesis by simp
      qed
    qed
  qed
qed

lemma finditer_from_increasing:
  "sorted_wrt (<) (map match_start (finditer_from pt tx i))"
proof (induction pt tx i rule: finditer_from.induct)
  case (1 pt tx i)
  show ?case
  proof (cases "length tx \<le> i")
    case True
    then show ?thesis by (subst finditer_from.simps) simp
  next
    case False
    show ?thesis
    proof (cases "if line_start tx i then pt (drop i tx) else None")
      case None
      with "1.IH"(1) [OF False None] False show ?thesis
        by (subst finditer_from.simps) simp
    next
      case (Some t)
      obtain g1 g2 n where t: "t = (g1, g2, n)" by (cases t)
      have "sorted_wrt (<) (map match_start (finditer_from pt tx (i + max n 1)))"
        using "1.IH"(2) [OF False Some [unfolded t] refl refl] .
      moreover have "\<forall>m\<in>set (finditer_from pt tx (i + max n 1)). i < match_start m"
        using finditer_from_starts [of _ pt tx "i + max n 1"] by fastforce
      ultimately show ?thesis
        using False Some t by (subst finditer_from.simps) simp
    qed
  qed
qed

lemma boundaries_of_contiguous:
  "sorted (map match_start ms) \<Longrightarrow> list_all (\<lambda>m. match_start m \<le> n) ms \<Longrightarrow> ms \<noteq> [] \<Longrightarrow>
   contiguous (match_start (hd ms)) n (spans_of (boundaries_of n ms))"
  by (induction n ms rule: boundaries_of.induct) (auto simp: spans_of_def)

lemma boundaries_of_Nil [simp]: "boundaries_of n ms = [] \<longleftrightarrow> ms = []"
  by (cases "(n, ms)" rule: boundaries_of.cases) auto

lemma boundaries_of_first:
  "ms \<noteq> [] \<Longrightarrow> fst (hd (spans_of (boundaries_of n ms))) = match_start (hd ms)"
  by (cases "(n, ms)" rule: boundaries_of.cases) (auto simp: spans_of_def)

lemma boundaries_of_strict:
  "sorted_wrt (<) (map match_start ms) \<Longrightarrow> list_all (\<lambda>m. match_start m < n) ms \<Longrightarrow>
   list_all (\<lambda>(s, e). s < e) (spans_of (boundaries_of n ms))"
  by (induction n ms rule: boundaries_of.induct) (auto simp: spans_of_def)

lemma finditer_sorted: "sorted (map match_start (finditer pt tx))"
  using finditer_from_increasing [of pt tx 0]
  by (simp add: finditer_def strict_sorted_iff)

lemma finditer_inside: "list_all (\<lambda>m. match_start m < length tx) (finditer pt tx)"
  using finditer_from_starts [of _ pt tx 0] by (auto simp: finditer_def list_all_iff)

text \<open>
  A marker of a family is a place where a line starts and the header pattern of the
  family matches; the first marker of a text is the least such index.
\<close>

definition matches :: "(ustr \<Rightarrow> (ustr \<times> ustr \<times> nat) option) \<Rightarrow> ustr \<Rightarrow> bool" where
  "matches pt s \<longleftrightarrow> pt s \<noteq> None"

definition marker_at :: "(ustr \<Rightarrow> bool) \<Rightarrow> ustr \<Rightarrow> nat \<Rightarrow> bool" where
  "marker_at header tx i \<longleftrightarrow> line_start tx i \<and> header (drop i tx)"

definition first_marker :: "(ustr \<Rightarrow> bool) \<Rightarrow> ustr \<Rightarrow> nat option" where
  "first_marker header tx = find (marker_at header tx) [0..<length tx]"

text \<open>
  What the parser's spans cover: there is no span when the text has no marker;
  otherwise the first span starts at the first marker, every span ends where the next
  starts, and the last one ends at the end of the text.
\<close>

definition from_first_marker :: "(ustr \<Rightarrow> bool) \<Rightarrow> ustr \<Rightarrow> (nat \<times> nat) list \<Rightarrow> bool" where
  "from_first_marker header tx spans \<longleftrightarrow>
     (case first_marker header tx of
        None \<Rightarrow> spans = []
      | Some i \<Rightarrow> spans \<noteq> [] \<and> contiguous i (length tx) spans)"

lemma first_marker_None:
  "first_marker header tx = None \<longleftrightarrow> (\<forall>i<length tx. \<not> marker_at header tx i)"
  by (auto simp: first_marker_def find_None_iff)

lemma first_marker_Some:
  "first_marker header tx = Some j \<longleftrightarrow>
     j < length tx \<and> marker_at header tx j \<and> (\<forall>k<j. \<not> marker_at header tx k)"
proof
  assume "first_marker header tx = Some j"
  then obtain i where i: "i < length [0..<length tx]" "marker_at header tx ([0..<length tx] ! i)"
    "j = [0..<length tx] ! i" "\<forall>k<i. \<not> marker_at header tx ([0..<length tx] ! k)"
    unfolding first_marker_def find_Some_iff by blast
  then have "i < length tx" by simp
  with i show "j < length tx \<and> marker_at header tx j \<and> (\<forall>k<j. \<not> marker_at header tx k)"
    by auto
next
  assume a: "j < length tx \<and> marker_at header tx j \<and> (\<forall>k<j. \<not> marker_at header tx k)"
  then have "j < length [0..<length tx] \<and> marker_at header tx ([0..<length tx] ! j) \<and>
             j = [0..<length tx] ! j \<and> (\<forall>k<j. \<not> marker_at header tx ([0..<length tx] ! k))"
    by auto
  then show "first_marker header tx = Some j"
    unfolding first_marker_def find_Some_iff by blast
qed

lemma finditer_from_no_marker:
  "(\<forall>j. i \<le> j \<and> j < length tx \<longrightarrow> \<not> marker_at (matches pt) tx j) \<Longrightarrow>
   finditer_from pt tx i = []"
proof (induction pt tx i rule: finditer_from.induct)
  case (1 pt tx i)
  show ?case
  proof (cases "length tx \<le> i")
    case True
    then show ?thesis by (subst finditer_from.simps) simp
  next
    case False
    with "1.prems" have n: "(if line_start tx i then pt (drop i tx) else None) = None"
      by (cases "pt (drop i tx)") (auto simp: marker_at_def matches_def)
    have "finditer_from pt tx (i + 1) = []"
      using "1.prems" by (intro "1.IH"(1) [OF False n]) auto
    with False n show ?thesis by (subst finditer_from.simps) simp
  qed
qed

lemma finditer_from_first:
  "i \<le> j \<Longrightarrow> j < length tx \<Longrightarrow> marker_at (matches pt) tx j \<Longrightarrow>
   (\<forall>k. i \<le> k \<and> k < j \<longrightarrow> \<not> marker_at (matches pt) tx k) \<Longrightarrow>
   \<exists>m ms. finditer_from pt tx i = m # ms \<and> match_start m = j"
proof (induction pt tx i rule: finditer_from.induct)
  case (1 pt tx i)
  have False: "\<not> length tx \<le> i" using "1.prems" by simp
  show ?case
  proof (cases "i = j")
    case True
    with "1.prems"(3) obtain g1 g2 n where
      "(if line_start tx i then pt (drop i tx) else None) = Some (g1, g2, n)"
      by (cases "pt (drop i tx)") (auto simp: marker_at_def matches_def)
    with False True show ?thesis by (subst finditer_from.simps) simp
  next
    case F: False
    with "1.prems" have "\<not> marker_at (matches pt) tx i" by simp
    then have n: "(if line_start tx i then pt (drop i tx) else None) = None"
      by (cases "pt (drop i tx)") (auto simp: marker_at_def matches_def)
    have "\<exists>m ms. finditer_from pt tx (i + 1) = m # ms \<and> match_start m = j"
      using "1.prems" F by (intro "1.IH"(1) [OF False n]) auto
    with False n show ?thesis by (subst finditer_from.simps) simp
  qed
qed

lemma finditer_from_markers:
  "m \<in> set (finditer_from pt tx i) \<Longrightarrow> marker_at (matches pt) tx (match_start m)"
proof (induction pt tx i rule: finditer_from.induct)
  case (1 pt tx i)
  show ?case
  proof (cases "length tx \<le> i")
    case True
    with "1.prems" show ?thesis by (subst (asm) finditer_from.simps) simp
  next
    case False
    show ?thesis
    proof (cases "if line_start tx i then pt (drop i tx) else None")
      case None
      with "1.prems" False have "m \<in> set (finditer_from pt tx (i + 1))"
        by (subst (asm) finditer_from.simps) simp
      from "1.IH"(1) [OF False None this] show ?thesis .
    next
      case (Some t)
      obtain g1 g2 n where t: "t = (g1, g2, n)" by (cases t)
      with "1.prems" False Some have
        "m = \<lparr>match_start = i, match_end = i + n, group1 = g1, group2 = g2\<rparr> \<or>
         m \<in> set (finditer_from pt tx (i + max n 1))"
        by (subst (asm) finditer_from.simps) simp
      then show ?thesis
      proof
        assume m: "m = \<lparr>match_start = i, match_end = i + n, group1 = g1, group2 = g2\<rparr>"
        from Some have "line_start tx i" "pt (drop i tx) = Some t"
          by (simp_all split: if_splits)
        then have "marker_at (matches pt) tx i"
          unfolding marker_at_def matches_def by simp
        with m show ?thesis by simp
      next
        assume "m \<in> set (finditer_from pt tx (i + max n 1))"
        from "1.IH"(2) [OF False Some [unfolded t] refl refl this] show ?thesis .
      qed
    qed
  qed
qed

text \<open>The first match of \<open>finditer\<close> starts at the first marker.\<close>

definition starts_at :: "nat option \<Rightarrow> re_match list \<Rightarrow> bool" where
  "starts_at first ms \<longleftrightarrow>
     (case first of None \<Rightarrow> ms = [] | Some j \<Rightarrow> ms \<noteq> [] \<and> match_start (hd ms) = j)"

lemma finditer_starts_at:
  "starts_at (first_marker (matches pt) tx) (finditer pt tx)"
proof (cases "first_marker (matches pt) tx")
  case None
  then have "finditer_from pt tx 0 = []"
    by (intro finditer_from_no_marker) (simp add: first_marker_None)
  with None show ?thesis by (simp add: starts_at_def finditer_def)
next
  case (Some j)
  then have "\<exists>m ms. finditer_from pt tx 0 = m # ms \<and> match_start m = j"
    by (intro finditer_from_first) (simp_all add: first_marker_Some)
  with Some show ?thesis by (auto simp: starts_at_def finditer_def)
qed

lemma boundaries_from_first_marker:
  assumes "sorted (map match_start ms)" and "list_all (\<lambda>m. match_start m < length tx) ms"
    and "starts_at (first_marker header tx) ms"
  shows "from_first_marker header tx (spans_of (boundaries_of (length tx) ms))"
proof (cases "first_marker header tx")
  case None
  with assms(3) show ?thesis by (simp add: from_first_marker_def starts_at_def spans_of_def)
next
  case (Some j)
  with assms(3) have ms: "ms \<noteq> []" "match_start (hd ms) = j"
    by (simp_all add: starts_at_def)
  have "list_all (\<lambda>m. match_start m \<le> length tx) ms"
    using assms(2) by (auto simp: list_all_iff)
  from boundaries_of_contiguous [OF assms(1) this ms(1)] ms Some
  show ?thesis by (simp add: from_first_marker_def spans_of_def)
qed

lemma sorted_hd_least: "sorted (map f xs) \<Longrightarrow> x \<in> set xs \<Longrightarrow> f (hd xs) \<le> f x"
  by (cases xs) auto

lemma merged_starts_at:
  assumes a: "starts_at (first_marker (matches p1) tx) (finditer p1 tx)"
    and b: "starts_at (first_marker (matches p2) tx) (finditer p2 tx)"
  shows "starts_at (first_marker (\<lambda>s. matches p1 s \<or> matches p2 s) tx)
           (sort_key match_start (finditer p1 tx @ map (\<lambda>m. m\<lparr>group2 := []\<rparr>) (finditer p2 tx)))"
proof -
  let ?ms = "sort_key match_start (finditer p1 tx @ map (\<lambda>m. m\<lparr>group2 := []\<rparr>) (finditer p2 tx))"
  have either: "marker_at (\<lambda>s. matches p1 s \<or> matches p2 s) tx i \<longleftrightarrow>
                marker_at (matches p1) tx i \<or> marker_at (matches p2) tx i" for i
    by (auto simp: marker_at_def)
  have mem: "marker_at (\<lambda>s. matches p1 s \<or> matches p2 s) tx (match_start m)" if "m \<in> set ?ms" for m
    using that finditer_from_markers [of _ p1 tx 0] finditer_from_markers [of _ p2 tx 0]
    by (auto simp: either finditer_def)
  have srt: "sorted (map match_start ?ms)" by (rule sorted_sort_key)
  show ?thesis
  proof (cases "first_marker (\<lambda>s. matches p1 s \<or> matches p2 s) tx")
    case None
    then have "first_marker (matches p1) tx = None" "first_marker (matches p2) tx = None"
      by (simp_all add: first_marker_None either)
    with a b have "finditer p1 tx = []" "finditer p2 tx = []"
      by (simp_all add: starts_at_def)
    with None show ?thesis by (simp add: starts_at_def)
  next
    case (Some j)
    then have j: "j < length tx" "marker_at (\<lambda>s. matches p1 s \<or> matches p2 s) tx j"
      "\<forall>k<j. \<not> marker_at (\<lambda>s. matches p1 s \<or> matches p2 s) tx k"
      by (simp_all add: first_marker_Some)
    have "\<exists>m\<in>set ?ms. match_start m = j"
    proof (cases "marker_at (matches p1) tx j")
      case True
      with j have "first_marker (matches p1) tx = Some j"
        by (simp add: first_marker_Some either)
      with a have "finditer p1 tx \<noteq> []" "match_start (hd (finditer p1 tx)) = j"
        by (simp_all add: starts_at_def)
      then have "hd (finditer p1 tx) \<in> set ?ms \<and> match_start (hd (finditer p1 tx)) = j"
        by simp
      then show ?thesis by blast
    next
      case False
      with j have "first_marker (matches p2) tx = Some j"
        by (simp add: first_marker_Some either)
      with b have n: "finditer p2 tx \<noteq> []" and h: "match_start (hd (finditer p2 tx)) = j"
        by (simp_all add: starts_at_def)
      let ?m = "(hd (finditer p2 tx))\<lparr>group2 := []\<rparr>"
      from n have "?m \<in> set ?ms" by simp
      moreover from h have "match_start ?m = j" by simp
      ultimately show ?thesis by blast
    qed
    then obtain m where m: "m \<in> set ?ms" "match_start m = j" by blast
    from length_pos_if_in_set [OF m(1)] have ne: "?ms \<noteq> []"
      by (metis length_greater_0_conv)
    from sorted_hd_least [OF srt m(1)] m(2) have le: "match_start (hd ?ms) \<le> j" by simp
    have "hd ?ms \<in> set ?ms" using ne by (rule hd_in_set)
    from mem [OF this] j(3) have "\<not> match_start (hd ?ms) < j" by blast
    with le have "match_start (hd ?ms) = j" by simp
    with ne Some show ?thesis by (simp add: starts_at_def)
  qed
qed

text \<open>A single-article header, on which both article patterns match.\<close>

definition single_article_text :: ustr where
  "single_article_text = word_madde @ [0x20] @ word_vahede"

text \<open>
  C2, as amended. For every text, the spans of \<open>identify_law_boundaries\<close> start at
  0, each ends where the next starts, the last ends at the end of the text, and none is
  empty: they partition the whole text. The spans of \<open>extract_chapters\<close>,
  \<open>extract_articles\<close> and of the note loop of \<open>extract_notes\<close> are contiguous in the same
  way and end at the end of the text, but the first span starts at the first marker of
  the family: what comes before the first marker belongs to no span, and a text without
  marker has no span. Chapter and note spans are never empty; an article span can be:
  on the text of a single-article header both article patterns match at index 0, and
  the first of the two spans is (0, 0).
\<close>

theorem boundaries_partition:
  "contiguous 0 (length tx) (identify_law_boundaries tx) \<and>
   list_all (\<lambda>(start, end). start < end) (identify_law_boundaries tx) \<and>
   from_first_marker (matches chapter_pattern) tx (spans_of (extract_chapters tx)) \<and>
   list_all (\<lambda>(start, end). start < end) (spans_of (extract_chapters tx)) \<and>
   from_first_marker (\<lambda>s. matches article_pattern s \<or> matches single_article_pattern s) tx
     (spans_of (extract_articles tx)) \<and>
   from_first_marker (matches note_pattern) tx (spans_of (note_boundaries tx)) \<and>
   list_all (\<lambda>(start, end). start < end) (spans_of (note_boundaries tx)) \<and>
   spans_of (extract_articles single_article_text) = [(0, 0), (0, 10)]"
proof -
  let ?ms = "sort_key match_start
                (finditer article_pattern tx @
                 map (\<lambda>m. m\<lparr>group2 := []\<rparr>) (finditer single_article_pattern tx))"
  have a: "sorted (map match_start ?ms)"
    by (rule sorted_sort_key)
  have b: "list_all (\<lambda>m. match_start m < length tx) ?ms"
    using finditer_inside [of tx article_pattern] finditer_inside [of tx single_article_pattern]
    by (auto simp: list_all_iff)
  have s: "sorted_wrt (<) (map match_start (finditer pt tx))" for pt
    using finditer_from_increasing [of pt tx 0] by (simp add: finditer_def)
  have c: "starts_at (first_marker (\<lambda>s. matches article_pattern s \<or> matches single_article_pattern s) tx) ?ms"
    by (intro merged_starts_at finditer_starts_at)
  have e: "spans_of (extract_articles single_article_text) = [(0, 0), (0, 10)]"
    by code_simp
  have f: "from_first_marker (matches pt) tx
             (spans_of (boundaries_of (length tx) (finditer pt tx)))" for pt
    by (intro boundaries_from_first_marker finditer_sorted finditer_inside finditer_starts_at)
  show ?thesis
    using identify_law_boundaries_contiguous [of tx] f
      boundaries_of_strict [OF s finditer_inside]
      boundaries_from_first_marker [OF a b c] e
    by (simp add: extract_chapters_def extract_articles_def note_boundaries_def)
qed

text \<open>Two texts: a line in front of a chapter header, and one header of each family.\<close>

definition preamble_text :: ustr where
  "preamble_text = [0x78, 0x0A] @ word_fasl @ [0x20, 0x6F1]"

definition marked_text :: ustr where
  "marked_text =
     [0x78, 0x0A] @ replicate 10 0x2A @ [0x0A] @
     word_fasl @ [0x20, 0x6F1, 0x0A] @
     word_madde @ [0x20, 0x6F1, 0x20, 0x2D, 0x20, 0x61, 0x0A] @
     word_tabsare @ [0x20, 0x2D, 0x20, 0x62]"

text \<open>
  C2 as stated fails for the chapter family: in a text of 7 characters whose
  chapter header is on the second line, the only chapter span is (2, 7), so the first
  line is not covered.
\<close>

theorem chapter_spans_miss_preamble:
  "length preamble_text = 7 \<and>
   spans_of (extract_chapters preamble_text) = [(2, 7)] \<and>
   \<not> contiguous 0 (length preamble_text) (spans_of (extract_chapters preamble_text))"
  by code_simp

lemma marked_text_spans:
  "identify_law_boundaries marked_text = [(0, 12), (12, 39)]"
  "first_marker (matches chapter_pattern) marked_text = Some 13"
  "spans_of (extract_chapters marked_text) = [(13, 39)]"
  "first_marker (\<lambda>s. matches article_pattern s \<or> matches single_article_pattern s)
     marked_text = Some 19"
  "spans_of (extract_articles marked_text) = [(19, 39)]"
  "first_marker (matches note_pattern) marked_text = Some 30"
  "spans_of (note_boundaries marked_text) = [(30, 39)]"
  by code_simp+

theorem boundaries_partition_witness:
  "identify_law_boundaries marked_text = [(0, 12), (12, 39)] \<and>
   first_marker (matches chapter_pattern) marked_text = Some 13 \<and>
   spans_of (extract_chapters marked_text) = [(13, 39)] \<and>
   first_marker (\<lambda>s. matches article_pattern s \<or> matches single_article_pattern s)
     marked_text = Some 19 \<and>
   spans_of (extract_articles marked_text) = [(19, 39)] \<and>
   first_marker (matches note_pattern) marked_text = Some 30 \<and>
   spans_of (note_boundaries marked_text) = [(30, 39)] \<and>
   contiguous 0 (length marked_text) (identify_law_boundaries marked_text) \<and>
   from_first_marker (matches chapter_pattern) marked_text
     (spans_of (extract_chapters marked_text)) \<and>
   from_first_marker (\<lambda>s. matches article_pattern s \<or> matches single_article_pattern s)
     marked_text (spans_of (extract_articles marked_text)) \<and>
   from_first_marker (matches note_pattern) marked_text
     (spans_of (note_boundaries marked_text))"
  using boundaries_partition [of marked_text] marked_text_spans by blast

section \<open>The parser keeps every article\<close>

lemma clean_text_only_sp: "only_sp (clean_text nfkc s)"
proof (cases "s = []")
  case True
  then show ?thesis by (simp add: clean_text_def)
next
  case False
  let ?w = "sub_whitespace (normalize_persian_text nfkc s)"
  let ?a = "sub_spaced is_punctuation (\<lambda>p. [p, 0x20]) ?w"
  let ?b = "sub_spaced is_parenthesis (\<lambda>p. [0x20, p, 0x20]) ?a"
  have "only_sp ?w"
    by (rule sub_whitespace_only_sp)
  then have "only_sp ?a"
    by (rule sub_spaced_only_sp [rotated]) (simp add: punct_not_space)
  then have "only_sp ?b"
    by (rule sub_spaced_only_sp [rotated]) (simp add: paren_not_space)
  then have "only_sp (str_strip ?b)"
    by (rule only_sp_subset) (rule str_strip_subset)
  then show ?thesis using False by (simp add: clean_text_def)
qed

lemma isspace_line_feed: "isspace 0x0A"
  by (simp add: isspace_def)

lemma only_sp_no_line_feed: "only_sp s \<Longrightarrow> 0x0A \<notin> set s"
proof
  assume "only_sp s" and "0x0A \<in> set s"
  then have "isspace 0x0A \<longrightarrow> (0x0A :: int) = 0x20"
    unfolding only_sp_def list_all_iff by blast
  with isspace_line_feed show False by simp
qed

lemma match_tail_to_end_all:
  assumes "match_tail_to_end r = Some (title, m)" and "0x0A \<notin> set r"
  shows "drop m r = []"
proof -
  from assms(1) have "drop m r = [] \<or> drop m r = [0x0A]"
    unfolding match_tail_to_end_def by (simp split: prod.splits if_splits)
  moreover have "set (drop m r) \<subseteq> set r" by (rule set_drop_subset)
  ultimately show ?thesis using assms(2) by auto
qed

lemma match_header_all:
  assumes "match_header word space_needed token match_tail_to_end s = Some (g1, g2, n)"
    and "0x0A \<notin> set s"
  shows "drop n s = []"
proof -
  let ?r = "drop (length word) s"
  let ?ws = "length (takeWhile isspace ?r)"
  from assms(1) obtain k title m where
    t: "match_tail_to_end (drop k (drop ?ws ?r)) = Some (title, m)"
    and n: "n = length word + ?ws + k + m"
    by (auto simp: match_header_def Let_def split: if_splits option.splits)
  have "set (drop k (drop ?ws ?r)) \<subseteq> set s"
    by (metis set_drop_subset subset_trans)
  with assms(2) have "0x0A \<notin> set (drop k (drop ?ws ?r))" by auto
  from match_tail_to_end_all [OF t this] have "drop m (drop k (drop ?ws ?r)) = []" .
  then show ?thesis unfolding n by (simp add: add.commute add.left_commute)
qed

lemma finditer_Nil [simp]: "finditer pt [] = []"
  by (simp add: finditer_def finditer_from.simps)

lemma extract_subsections_Nil [simp]: "extract_subsections [] = []"
  by (simp add: extract_subsections_def subsections_of_def)

lemma extract_notes_Nil [simp]: "extract_notes [] = []"
  by (simp add: extract_notes_def note_boundaries_def)

lemma header_Nil [simp]: "match_header (c # w) space_needed token tail [] = None"
  by (simp add: match_header_def)

text \<open>
  What the header removal of \<open>parse_article\<close> does to a text that starts with an article
  header: the cleaned text has no line feed, so the title group of the pattern runs to
  its end and the substitution removes all of it.
\<close>

lemma parse_article_header_removal:
  assumes "article_header (clean_text nfkc article_text) \<noteq> None"
  shows "parse_article nfkc article_text article_num article_title =
           \<lparr>ar_number = article_num, ar_title = article_title, ar_content = [],
            ar_subsections = [], ar_notes = [], ar_word_count = 0\<rparr>"
proof -
  from assms obtain g1 g2 n where
    h: "article_header (clean_text nfkc article_text) = Some (g1, g2, n)"
    by auto
  have "0x0A \<notin> set (clean_text nfkc article_text)"
    by (rule only_sp_no_line_feed) (rule clean_text_only_sp)
  with h have "drop n (clean_text nfkc article_text) = []"
    unfolding article_header_def by (rule match_header_all)
  with h have r: "re_sub_first article_header (clean_text nfkc article_text) = []"
    by (simp add: re_sub_first_def)
  have s: "re_sub_first single_article_header [] = []"
    by (simp add: re_sub_first_def single_article_header_def word_madde_def)
  show ?thesis
    by (simp add: parse_article_def Let_def r s str_strip_def)
qed

text \<open>A string that \<open>strip()\<close> leaves unchanged: it is empty or has no whitespace at its ends.\<close>

definition trimmed :: "ustr \<Rightarrow> bool" where
  "trimmed s \<longleftrightarrow> s = [] \<or> (\<not> isspace (hd s) \<and> \<not> isspace (last s))"

lemma trimmed_strip: "trimmed (str_strip s)"
  using str_strip_ends [of s] by (auto simp: trimmed_def)

lemma str_split_Nil [simp]: "str_split [] = []"
  by (simp add: str_split_def)

lemma parse_article_fields:
  "ar_number (parse_article nfkc t num title) = num \<and>
   ar_title (parse_article nfkc t num title) = title \<and>
   trimmed (ar_content (parse_article nfkc t num title)) \<and>
   ar_word_count (parse_article nfkc t num title) =
     length (str_split (ar_content (parse_article nfkc t num title)))"
  by (simp add: parse_article_def Let_def trimmed_strip)

text \<open>
  An article as \<open>parse_article\<close> returns it for a span with the number \<open>num\<close>: the number is
  the span's, the content is trimmed and may be empty, and the word count is that of the
  content. A chapter is kept with one such article for every article span of its text.
\<close>

definition kept :: "ustr \<Rightarrow> LegalArticle_dc \<Rightarrow> bool" where
  "kept num a \<longleftrightarrow>
     ar_number a = num \<and> trimmed (ar_content a) \<and>
     ar_word_count a = length (str_split (ar_content a))"

lemma parse_articles_kept:
  "list_all2 kept (map fst spans)
     (map (\<lambda>(article_num, article_title, start_pos, end_pos).
             parse_article nfkc (slice start_pos end_pos t) article_num article_title) spans)"
  by (induction spans) (auto simp: kept_def parse_article_fields)

definition kept_chapter :: "ustr \<Rightarrow> ustr \<times> ustr \<times> nat \<times> nat \<Rightarrow> LegalChapter_dc \<Rightarrow> bool" where
  "kept_chapter t boundary ch \<longleftrightarrow>
     (case boundary of (chapter_num, chapter_title, start_pos, end_pos) \<Rightarrow>
        ch_number ch = chapter_num \<and> ch_title ch = chapter_title \<and>
        list_all2 kept (map fst (extract_articles (slice start_pos end_pos t))) (ch_articles ch))"

lemma parse_chapters_kept:
  "list_all2 (kept_chapter t) spans
     (map (\<lambda>(chapter_num, chapter_title, start_pos, end_pos).
             parse_chapter nfkc (slice start_pos end_pos t) chapter_num chapter_title) spans)"
  by (induction spans) (auto simp: kept_chapter_def parse_chapter_def parse_articles_kept)

text \<open>
  C3, as amended. The parser has no validation: its dataclasses accept every content,
  and \<open>parse_article\<close> is a total function. \<open>parse_document_from_dict\<close> raises exactly when
  \<open>raw_content\<close> is empty; otherwise it returns a document with one chapter for every
  chapter span and, inside it, one article for every article span of the chapter text,
  in order, and, when the text has no chapter, one standalone article for every article
  span of the text. Every article carries the number of its span, a trimmed content that
  may be empty, and the word count of that content: an article whose main content is
  empty is kept, not rejected.
\<close>

theorem parse_document_keeps_articles:
  "(parse_document_from_dict nfkc law_dict = None \<longleftrightarrow> raw_content law_dict = []) \<and>
   (\<forall>doc. parse_document_from_dict nfkc law_dict = Some doc \<longrightarrow>
      list_all2 (kept_chapter (raw_content law_dict)) (extract_chapters (raw_content law_dict))
        (pd_chapters doc) \<and>
      list_all2 kept
        (if extract_chapters (raw_content law_dict) = [] then
           map fst (extract_articles (raw_content law_dict)) else [])
        (pd_standalone_articles doc))"
  using parse_chapters_kept [of "raw_content law_dict" "extract_chapters (raw_content law_dict)" nfkc]
    parse_articles_kept [of "extract_articles (raw_content law_dict)" nfkc "raw_content law_dict"]
  by (auto simp: parse_document_from_dict_def Let_def)

text \<open>Two law records: an article header alone, and a chapter with one article.\<close>

definition header_only :: ustr where
  "header_only = word_madde @ [0x20, 0x6F1]"

definition header_only_law :: LawMetadata where
  "header_only_law =
     \<lparr>law_id = ascii ''law_001'', law_title = unknown, approval_date = unknown,
      approval_authority = unknown, raw_content = header_only,
      law_word_count = 2, quality_score = 0.4\<rparr>"

definition chapter_law :: LawMetadata where
  "chapter_law =
     \<lparr>law_id = ascii ''law_002'', law_title = unknown, approval_date = unknown,
      approval_authority = unknown,
      raw_content =
        word_fasl @ [0x20, 0x6F1, 0x20, 0x2D, 0x20, 0x6A9, 0x644, 0x6CC, 0x627, 0x62A, 0x0A] @
        word_madde @ [0x20, 0x6F1, 0x20, 0x2D, 0x20, 0x645, 0x62A, 0x646],
      law_word_count = 7, quality_score = 0.4\<rparr>"

lemma header_only_article:
  "header_only \<noteq> []"
  "extract_chapters header_only = []"
  "extract_articles header_only = [(header_only, [], 0, 6)]"
  "slice 0 6 header_only = header_only"
  "parse_article nfkc_fragment header_only header_only [] =
     \<lparr>ar_number = header_only, ar_title = [], ar_content = [],
      ar_subsections = [], ar_notes = [], ar_word_count = 0\<rparr>"
  by code_simp+

text \<open>
  C3 as stated fails: an article that is a header and nothing else has an empty main
  content, and the parsed document holds it, with \<open>word_count\<close> 0.
\<close>

theorem empty_article_is_kept:
  "parse_document_from_dict nfkc_fragment header_only_law =
     Some \<lparr>pd_id = ascii ''law_001'', pd_title = unknown, pd_chapters = [],
           pd_standalone_articles =
             [\<lparr>ar_number = header_only, ar_title = [], ar_content = [],
               ar_subsections = [], ar_notes = [], ar_word_count = 0\<rparr>]\<rparr>"
  by (simp add: parse_document_from_dict_def header_only_law_def Let_def header_only_article)

lemma chapter_law_spans:
  "raw_content chapter_law \<noteq> []"
  "extract_chapters (raw_content chapter_law) =
     [(word_fasl @ [0x20, 0x6F1], [0x6A9, 0x644, 0x6CC, 0x627, 0x62A], 0, 26)]"
  "extract_articles (slice 0 26 (raw_content chapter_law)) =
     [(word_madde @ [0x20, 0x6F1], [0x645, 0x62A, 0x646], 14, 26)]"
  by code_simp+

theorem parse_document_keeps_articles_witness:
  "parse_document_from_dict nfkc_fragment chapter_law \<noteq> None \<and>
   map ch_number (pd_chapters (the (parse_document_from_dict nfkc_fragment chapter_law))) =
     [word_fasl @ [0x20, 0x6F1]] \<and>
   map (\<lambda>ch. map ar_number (ch_articles ch))
     (pd_chapters (the (parse_document_from_dict nfkc_fragment chapter_law))) =
     [[word_madde @ [0x20, 0x6F1]]] \<and>
   pd_standalone_articles (the (parse_document_from_dict nfkc_fragment chapter_law)) = []"
proof -
  note t = parse_document_keeps_articles [of nfkc_fragment chapter_law]
  from t chapter_law_spans(1) obtain doc where
    d: "parse_document_from_dict nfkc_fragment chapter_law = Some doc"
    by auto
  with t have
    "list_all2 (kept_chapter (raw_content chapter_law))
       (extract_chapters (raw_content chapter_law)) (pd_chapters doc)"
    "list_all2 kept
       (if extract_chapters (raw_content chapter_law) = [] then
          map fst (extract_articles (raw_content chapter_law)) else [])
       (pd_standalone_articles doc)"
    by blast+
  then show ?thesis
    unfolding d
    by (auto simp: list_all2_Cons1 kept_chapter_def kept_def chapter_law_spans)
qed

end
